theory Spec2Isabelle
  imports Main "HOL-Library.Word" "HOL-Library.List_Lexorder"
begin

unbundle bit_operations_syntax

section \<open>The 1-Wire driver of extras/onewire/onewire.c\<close>

subsection \<open>Platform: pin driver, delay and critical sections\<close>

type_synonym uint8_t = "8 word"
type_synonym uint16_t = "16 word"
type_synonym onewire_addr_t = "64 word"

datatype gpio_direction = GPIO_INPUT | GPIO_OUTPUT | GPIO_OUT_OPEN_DRAIN

text \<open>
  Every call the driver makes into the platform is an event. The line level a
  \<open>gpio_read\<close> returns is recorded in its event.
\<close>

datatype event =
    Gpio_enable uint8_t gpio_direction
  | Gpio_write uint8_t bool
  | Gpio_read uint8_t bool
  | Delay_us nat
  | Enter_critical
  | Exit_critical

text \<open>
  What is attached to the pins is a state machine of some type \<open>'b\<close>: \<open>react\<close> is
  its reaction to an event of the driver and \<open>level\<close> is the level it presents on a
  pin. The world of the driver is the trace of the events so far and the state of that
  machine.
\<close>

record 'b platform =
  react :: "event \<Rightarrow> 'b \<Rightarrow> 'b"
  level :: "uint8_t \<Rightarrow> 'b \<Rightarrow> bool"

type_synonym 'b world = "event list \<times> 'b"

definition emit :: "'b platform \<Rightarrow> event \<Rightarrow> 'b world \<Rightarrow> 'b world" where
  "emit P e w = (fst w @ [e], react P e (snd w))"

definition gpio_enable :: "'b platform \<Rightarrow> uint8_t \<Rightarrow> gpio_direction \<Rightarrow> 'b world \<Rightarrow> 'b world" where
  "gpio_enable P pin dir w = emit P (Gpio_enable pin dir) w"

definition gpio_write :: "'b platform \<Rightarrow> uint8_t \<Rightarrow> bool \<Rightarrow> 'b world \<Rightarrow> 'b world" where
  "gpio_write P pin v w = emit P (Gpio_write pin v) w"

definition gpio_read :: "'b platform \<Rightarrow> uint8_t \<Rightarrow> 'b world \<Rightarrow> bool \<times> 'b world" where
  "gpio_read P pin w = (let v = level P pin (snd w) in (v, emit P (Gpio_read pin v) w))"

definition sdk_os_delay_us :: "'b platform \<Rightarrow> nat \<Rightarrow> 'b world \<Rightarrow> 'b world" where
  "sdk_os_delay_us P us w = emit P (Delay_us us) w"

definition noInterrupts :: "'b platform \<Rightarrow> 'b world \<Rightarrow> 'b world" where
  "noInterrupts P w = emit P Enter_critical w"

definition interrupts :: "'b platform \<Rightarrow> 'b world \<Rightarrow> 'b world" where
  "interrupts P w = emit P Exit_critical w"

text \<open>The events a call has added to the trace.\<close>

definition emitted :: "'b world \<Rightarrow> 'b world \<Rightarrow> event list" where
  "emitted w w' = drop (length (fst w)) (fst w')"

subsection \<open>Bit transport\<close>

lemma word_pred_less: "x \<noteq> 0 \<Longrightarrow> unat (x - 1) < unat (x :: 'a::len word)"
  by (simp add: unat_minus_one unat_gt_0)

lemma word_pred_pred_less: "retries - 1 \<noteq> 0 \<Longrightarrow> unat (retries - 2) < unat (retries - 1 :: 8 word)"
  using word_pred_less [of "retries - 1"] by simp

text \<open>The idle-wait loop of \<open>onewire_reset\<close>: \<open>False\<close> is the early \<open>return 0\<close>.\<close>

function reset_wait :: "'b platform \<Rightarrow> uint8_t \<Rightarrow> uint8_t \<Rightarrow> 'b world \<Rightarrow> bool \<times> 'b world" where
  "reset_wait P pin retries w =
     (let retries = retries - 1 in
      if retries = 0 then (False, w)
      else
        let w = sdk_os_delay_us P 2 w;
            (v, w) = gpio_read P pin w
        in if \<not> v then reset_wait P pin retries w else (True, w))"
  by pat_completeness auto
termination
  by (relation "measure (\<lambda>(P, pin, retries, w). unat (retries - 1))")
     (auto simp: word_pred_pred_less)

declare reset_wait.simps [simp del]

definition onewire_reset :: "'b platform \<Rightarrow> uint8_t \<Rightarrow> 'b world \<Rightarrow> uint8_t \<times> 'b world" where
  "onewire_reset P pin w =
     (let w = gpio_enable P pin GPIO_OUT_OPEN_DRAIN w;
          w = gpio_write P pin True w;
          (idle, w) = reset_wait P pin 125 w
      in if \<not> idle then (0, w)
      else
        let w = gpio_write P pin False w;
            w = sdk_os_delay_us P 480 w;
            w = noInterrupts P w;
            w = gpio_write P pin True w;
            w = sdk_os_delay_us P 70 w;
            (v, w) = gpio_read P pin w;
            r = (if \<not> v then 1 else 0);
            w = interrupts P w;
            w = sdk_os_delay_us P 410 w
        in (r, w))"

definition onewire_write_bit :: "'b platform \<Rightarrow> uint8_t \<Rightarrow> uint8_t \<Rightarrow> 'b world \<Rightarrow> 'b world" where
  "onewire_write_bit P pin v w =
     (if v AND 1 \<noteq> 0 then
        let w = noInterrupts P w;
            w = gpio_write P pin False w;
            w = sdk_os_delay_us P 10 w;
            w = gpio_write P pin True w;
            w = interrupts P w;
            w = sdk_os_delay_us P 55 w
        in w
      else
        let w = noInterrupts P w;
            w = gpio_write P pin False w;
            w = sdk_os_delay_us P 65 w;
            w = gpio_write P pin True w;
            w = interrupts P w;
            w = sdk_os_delay_us P 5 w
        in w)"

definition onewire_read_bit :: "'b platform \<Rightarrow> uint8_t \<Rightarrow> 'b world \<Rightarrow> uint8_t \<times> 'b world" where
  "onewire_read_bit P pin w =
     (let w = noInterrupts P w;
          w = gpio_write P pin False w;
          w = sdk_os_delay_us P 3 w;
          w = gpio_write P pin True w;
          w = sdk_os_delay_us P 10 w;
          (v, w) = gpio_read P pin w;
          r = (if v then 1 else 0);
          w = interrupts P w;
          w = sdk_os_delay_us P 53 w
      in (r, w))"

text \<open>The sum of the delays in a list of events, in microseconds.\<close>

fun total_delay :: "event list \<Rightarrow> nat" where
  "total_delay [] = 0"
| "total_delay (Delay_us n # es) = n + total_delay es"
| "total_delay (_ # es) = total_delay es"

subsection \<open>Byte transport\<close>

text \<open>
  The number of left shifts after which an 8-bit mask is zero: the measure of the loops
  that walk a mask through a byte (\<open>mask <<= 1\<close> until \<open>mask == 0\<close>).
\<close>

definition shifts_left :: "uint8_t \<Rightarrow> nat" where
  "shifts_left m = (LEAST k. push_bit k m = 0)"

lemma shifts_left_le: "shifts_left m \<le> 8"
  unfolding shifts_left_def by (rule Least_le) (simp add: push_bit_word_beyond)

lemma shifts_left_push:
  assumes "m \<noteq> 0"
  shows "shifts_left (push_bit 1 m) < shifts_left m"
proof -
  let ?k = "LEAST k. push_bit k m = 0"
  have ex: "push_bit 8 m = 0" by (simp add: push_bit_word_beyond)
  have k0: "push_bit ?k m = 0" by (rule LeastI [of _ 8]) (rule ex)
  have "?k \<noteq> 0" using k0 assms by (cases "?k = 0") simp_all
  then obtain j where j: "?k = Suc j" by (cases ?k) simp_all
  have "push_bit j (push_bit 1 m) = 0" using k0 j by (simp add: push_bit_push_bit)
  then have "(LEAST k. push_bit k (push_bit 1 m) = 0) \<le> j" by (rule Least_le)
  then show ?thesis using j by (simp add: shifts_left_def)
qed

lemma shifts_left_double: "m \<noteq> 0 \<Longrightarrow> shifts_left (m * 2) < shifts_left m"
  using shifts_left_push [of m] by (simp add: push_bit_eq_mult)

text \<open>\<open>for (bitMask = 0x01; bitMask; bitMask <<= 1)\<close> of \<open>onewire_write\<close>.\<close>

function write_loop :: "'b platform \<Rightarrow> uint8_t \<Rightarrow> uint8_t \<Rightarrow> uint8_t \<Rightarrow> 'b world \<Rightarrow> 'b world" where
  "write_loop P pin v bitMask w =
     (if bitMask \<noteq> 0 then
        write_loop P pin v (push_bit 1 bitMask)
          (onewire_write_bit P pin (if bitMask AND v \<noteq> 0 then 1 else 0) w)
      else w)"
  by pat_completeness auto
termination
  by (relation "measure (\<lambda>(P, pin, v, bitMask, w). shifts_left bitMask)")
     (auto simp: shifts_left_double)

declare write_loop.simps [simp del]

definition onewire_write :: "'b platform \<Rightarrow> uint8_t \<Rightarrow> uint8_t \<Rightarrow> 'b world \<Rightarrow> 'b world" where
  "onewire_write P pin v w = write_loop P pin v 1 w"

subsection \<open>Device search\<close>

text \<open>
  Modelled from the spec: the declaration of \<open>onewire_search_t\<close> (onewire.h) is not
  among the sources. Its fields are the ones the code reads and writes; section 3 of
  the specification names them: the working ROM buffer of eight bytes, the index of
  the last discrepancy and the flag of the last device. The constant \<open>ONEWIRE_NONE\<close>
  of the same header is a parameter \<open>NONE\<close> of the search.
\<close>

record onewire_search_t =
  rom_no :: "uint8_t list"
  last_discrepancy :: uint8_t
  last_device_found :: bool

definition onewire_search_start :: "onewire_search_t" where
  "onewire_search_start = \<lparr>rom_no = replicate 8 0, last_discrepancy = 0, last_device_found = False\<rparr>"

definition onewire_search_prefix :: "onewire_search_t \<Rightarrow> uint8_t \<Rightarrow> onewire_search_t" where
  "onewire_search_prefix search family_code =
     (let search = search\<lparr>rom_no := (rom_no search)[0 := family_code]\<rparr>;
          search = foldl (\<lambda>s i. s\<lparr>rom_no := (rom_no s)[i := 0]\<rparr>) search [1..<8];
          search = search\<lparr>last_discrepancy := 64\<rparr>;
          search = search\<lparr>last_device_found := False\<rparr>
      in search)"

text \<open>
  The body of the \<open>do ... while\<close> loop of \<open>onewire_search_next\<close>. The first
  component of the result is \<open>True\<close> when the body left the loop by \<open>break\<close>.
\<close>

definition search_body ::
  "'b platform \<Rightarrow> uint8_t \<Rightarrow> uint8_t \<Rightarrow> uint8_t \<Rightarrow> int \<Rightarrow> uint8_t \<Rightarrow> onewire_search_t \<Rightarrow> 'b world
    \<Rightarrow> bool \<times> uint8_t \<times> uint8_t \<times> int \<times> uint8_t \<times> onewire_search_t \<times> 'b world" where
  "search_body P pin id_bit_number last_zero rom_byte_number rom_byte_mask search w =
     (let (id_bit, w) = onewire_read_bit P pin w;
          (cmp_id_bit, w) = onewire_read_bit P pin w
      in if id_bit = 1 \<and> cmp_id_bit = 1 then
           (True, id_bit_number, last_zero, rom_byte_number, rom_byte_mask, search, w)
         else
           let search_direction :: uint8_t =
                 (if id_bit \<noteq> cmp_id_bit then id_bit
                  else if id_bit_number < last_discrepancy search then
                    (if rom_no search ! nat rom_byte_number AND rom_byte_mask \<noteq> 0 then 1 else 0)
                  else (if id_bit_number = last_discrepancy search then 1 else 0));
               last_zero =
                 (if id_bit = cmp_id_bit \<and> search_direction = 0 then id_bit_number else last_zero);
               search =
                 (if search_direction = 1 then
                    search\<lparr>rom_no := (rom_no search)
                      [nat rom_byte_number := rom_no search ! nat rom_byte_number OR rom_byte_mask]\<rparr>
                  else
                    search\<lparr>rom_no := (rom_no search)
                      [nat rom_byte_number := rom_no search ! nat rom_byte_number AND NOT rom_byte_mask]\<rparr>);
               w = onewire_write_bit P pin search_direction w;
               id_bit_number = id_bit_number + 1;
               rom_byte_mask = push_bit 1 rom_byte_mask;
               (rom_byte_number, rom_byte_mask) =
                 (if rom_byte_mask = 0 then (rom_byte_number + 1, 1)
                  else (rom_byte_number, rom_byte_mask))
           in (False, id_bit_number, last_zero, rom_byte_number, rom_byte_mask, search, w))"

lemma search_body_next:
  assumes "search_body P pin n lz rbn m s w = (False, n', lz', rbn', m', s', w')"
  shows "(rbn', m') = (if push_bit 1 m = 0 then (rbn + 1, 1) else (rbn, push_bit 1 m))"
  using assms
  by (auto simp: search_body_def Let_def split: prod.splits if_splits)

text \<open>
  The \<open>do ... while (rom_byte_number < 8)\<close> loop. The result holds the variables the
  code uses after the loop; its first component is \<open>True\<close> when the loop was left by
  \<open>break\<close> (the walk was aborted) and \<open>False\<close> when its condition ended it.
\<close>

lemma search_loop_decreases:
  assumes body0: "search_body P pin n lz rbn m s w = (brk, n', lz', rbn', m', s', w')"
    and nobrk: "\<not> brk"
    and lt: "rbn' < 8"
  shows "nat (8 - rbn') * 9 + shifts_left m' < nat (8 - rbn) * 9 + shifts_left m"
proof -
  have body: "search_body P pin n lz rbn m s w = (False, n', lz', rbn', m', s', w')"
    using body0 nobrk by simp
  have nxt: "(rbn', m') = (if push_bit 1 m = 0 then (rbn + 1, 1) else (rbn, push_bit 1 m))"
    by (rule search_body_next [OF body])
  show ?thesis
  proof (cases "push_bit 1 m = 0")
    case True
    then have "rbn' = rbn + 1" using nxt by simp
    moreover have "shifts_left m' \<le> 8" by (rule shifts_left_le)
    ultimately show ?thesis using lt by (simp add: nat_diff_distrib)
  next
    case False
    then have eq: "rbn' = rbn" "m' = push_bit 1 m" using nxt by simp_all
    have "m \<noteq> 0" using False by auto
    then show ?thesis using eq shifts_left_push [of m] by simp
  qed
qed

function search_loop ::
  "'b platform \<Rightarrow> uint8_t \<Rightarrow> uint8_t \<Rightarrow> uint8_t \<Rightarrow> int \<Rightarrow> uint8_t \<Rightarrow> onewire_search_t \<Rightarrow> 'b world
    \<Rightarrow> bool \<times> uint8_t \<times> uint8_t \<times> onewire_search_t \<times> 'b world" where
  "search_loop P pin id_bit_number last_zero rom_byte_number rom_byte_mask search w =
     (case search_body P pin id_bit_number last_zero rom_byte_number rom_byte_mask search w of
        (brk, id_bit_number, last_zero, rom_byte_number, rom_byte_mask, search, w) \<Rightarrow>
          if brk then (True, id_bit_number, last_zero, search, w)
          else if rom_byte_number < 8 then
            search_loop P pin id_bit_number last_zero rom_byte_number rom_byte_mask search w
          else (False, id_bit_number, last_zero, search, w))"
  by pat_completeness auto
termination
  apply (relation "measure (\<lambda>(P, pin, n, lz, rbn, m, s, w). nat (8 - rbn) * 9 + shifts_left m)")
   apply simp
  apply clarify
  apply (drule sym)
  apply (frule search_loop_decreases)
    apply assumption
   apply assumption
  apply simp
  done

declare search_loop.simps [simp del]

text \<open>
  \<open>for (rom_byte_number = 7; rom_byte_number >= 0; rom_byte_number--)\<close>: the address
  is assembled from the working ROM buffer, byte 7 first.
\<close>

function assemble_addr :: "uint8_t list \<Rightarrow> int \<Rightarrow> onewire_addr_t \<Rightarrow> onewire_addr_t" where
  "assemble_addr rom rom_byte_number addr =
     (if rom_byte_number \<ge> 0 then
        assemble_addr rom (rom_byte_number - 1) (push_bit 8 addr OR ucast (rom ! nat rom_byte_number))
      else addr)"
  by pat_completeness auto
termination
  by (relation "measure (\<lambda>(rom, rom_byte_number, addr). nat (rom_byte_number + 1))") auto

declare assemble_addr.simps [simp del]

text \<open>
  The end of \<open>onewire_search_next\<close>, from \<open>if (!search_result || !search->rom_no[0])\<close>
  on. The \<open>printf\<close> of the source writes to the console and is left out.
\<close>

definition search_finish ::
  "onewire_addr_t \<Rightarrow> uint8_t \<Rightarrow> onewire_search_t \<Rightarrow> 'b world \<Rightarrow> onewire_addr_t \<times> onewire_search_t \<times> 'b world" where
  "search_finish NONE search_result search w =
     (if search_result = 0 \<or> rom_no search ! 0 = 0 then
        (NONE, search\<lparr>last_discrepancy := 0, last_device_found := False\<rparr>, w)
      else (assemble_addr (rom_no search) 7 0, search, w))"

definition onewire_search_next ::
  "'b platform \<Rightarrow> onewire_addr_t \<Rightarrow> onewire_search_t \<Rightarrow> uint8_t \<Rightarrow> 'b world
    \<Rightarrow> onewire_addr_t \<times> onewire_search_t \<times> 'b world" where
  "onewire_search_next P NONE search pin w =
     (if \<not> last_device_found search then
        let (r, w) = onewire_reset P pin w in
        if r = 0 then
          (NONE, search\<lparr>last_discrepancy := 0, last_device_found := False\<rparr>, w)
        else
          let w = onewire_write P pin 0xF0 w;
              (brk, id_bit_number, last_zero, search, w) = search_loop P pin 1 0 0 1 search w;
              (search_result, search) =
                (if \<not> id_bit_number < 65 then
                   let search = search\<lparr>last_discrepancy := last_zero\<rparr>;
                       search = (if last_discrepancy search = 0
                                 then search\<lparr>last_device_found := True\<rparr> else search)
                   in (1, search)
                 else (0, search))
          in search_finish NONE search_result search w
      else search_finish NONE 0 search w)"

subsection \<open>Checksums\<close>

definition dscrc_table :: "uint8_t list" where
  "dscrc_table =
     [0, 94, 188, 226, 97, 63, 221, 131, 194, 156, 126, 32, 163, 253, 31, 65,
      157, 195, 33, 127, 252, 162, 64, 30, 95, 1, 227, 189, 62, 96, 130, 220,
      35, 125, 159, 193, 66, 28, 254, 160, 225, 191, 93, 3, 128, 222, 60, 98,
      190, 224, 2, 92, 223, 129, 99, 61, 124, 34, 192, 158, 29, 67, 161, 255,
      70, 24, 250, 164, 39, 121, 155, 197, 132, 218, 56, 102, 229, 187, 89, 7,
      219, 133, 103, 57, 186, 228, 6, 88, 25, 71, 165, 251, 120, 38, 196, 154,
      101, 59, 217, 135, 4, 90, 184, 230, 167, 249, 27, 69, 198, 152, 122, 36,
      248, 166, 68, 26, 153, 199, 37, 123, 58, 100, 134, 216, 91, 5, 231, 185,
      140, 210, 48, 110, 237, 179, 81, 15, 78, 16, 242, 172, 47, 113, 147, 205,
      17, 79, 173, 243, 112, 46, 204, 146, 211, 141, 111, 49, 178, 236, 14, 80,
      175, 241, 19, 77, 206, 144, 114, 44, 109, 51, 209, 143, 12, 82, 176, 238,
      50, 108, 142, 208, 83, 13, 239, 177, 240, 174, 76, 18, 145, 207, 45, 115,
      202, 148, 118, 40, 171, 245, 23, 73, 8, 86, 180, 234, 105, 55, 213, 139,
      87, 9, 235, 181, 54, 104, 138, 212, 149, 203, 41, 119, 244, 170, 72, 22,
      233, 183, 85, 11, 136, 214, 52, 106, 43, 117, 151, 201, 74, 20, 246, 168,
      116, 42, 200, 150, 21, 75, 169, 247, 182, 232, 10, 84, 215, 137, 107, 53]"

text \<open>
  \<open>onewire_crc8\<close> as compiled with \<open>ONEWIRE_CRC8_TABLE\<close>. The buffer is the list
  \<open>addr\<close>, read from index \<open>i\<close> on; \<open>while (len--)\<close> tests \<open>len\<close> and then
  decrements it.
\<close>

function crc8_table_loop :: "uint8_t list \<Rightarrow> nat \<Rightarrow> uint8_t \<Rightarrow> uint8_t \<Rightarrow> uint8_t" where
  "crc8_table_loop addr i len crc =
     (if len \<noteq> 0 then
        crc8_table_loop addr (i + 1) (len - 1) (dscrc_table ! unat (crc XOR addr ! i))
      else crc)"
  by pat_completeness auto
termination
  by (relation "measure (\<lambda>(addr, i, len, crc). unat len)") (auto simp: word_pred_less)

declare crc8_table_loop.simps [simp del]

definition onewire_crc8_table :: "uint8_t list \<Rightarrow> uint8_t \<Rightarrow> uint8_t" where
  "onewire_crc8_table addr len = crc8_table_loop addr 0 len 0"

text \<open>\<open>onewire_crc8\<close> as compiled without the table: \<open>for (i = 8; i; i--)\<close> per byte.\<close>

function crc8_bits :: "uint8_t \<Rightarrow> uint8_t \<Rightarrow> uint8_t \<Rightarrow> uint8_t" where
  "crc8_bits i crc inbyte =
     (if i \<noteq> 0 then
        let mix = (crc XOR inbyte) AND 1;
            crc = drop_bit 1 crc;
            crc = (if mix \<noteq> 0 then crc XOR 0x8C else crc);
            inbyte = drop_bit 1 inbyte
        in crc8_bits (i - 1) crc inbyte
      else crc)"
  by pat_completeness auto
termination
  by (relation "measure (\<lambda>(i, crc, inbyte). unat i)") (auto simp: word_pred_less)

declare crc8_bits.simps [simp del]

function crc8_bitwise_loop :: "uint8_t list \<Rightarrow> nat \<Rightarrow> uint8_t \<Rightarrow> uint8_t \<Rightarrow> uint8_t" where
  "crc8_bitwise_loop addr i len crc =
     (if len \<noteq> 0 then
        crc8_bitwise_loop addr (i + 1) (len - 1) (crc8_bits 8 crc (addr ! i))
      else crc)"
  by pat_completeness auto
termination
  by (relation "measure (\<lambda>(addr, i, len, crc). unat len)") (auto simp: word_pred_less)

declare crc8_bitwise_loop.simps [simp del]

definition onewire_crc8_bitwise :: "uint8_t list \<Rightarrow> uint8_t \<Rightarrow> uint8_t" where
  "onewire_crc8_bitwise addr len = crc8_bitwise_loop addr 0 len 0"

definition oddparity :: "uint8_t list" where
  "oddparity = [0, 1, 1, 0, 1, 0, 0, 1, 1, 0, 0, 1, 0, 1, 1, 0]"

text \<open>The body of the loop of \<open>onewire_crc16\<close>, for the input byte \<open>b\<close>.\<close>

definition crc16_step :: "uint8_t \<Rightarrow> uint16_t \<Rightarrow> uint16_t" where
  "crc16_step b crc =
     (let cdata :: uint16_t = ucast b;
          cdata = (cdata XOR crc) AND 0xff;
          crc = drop_bit 8 crc;
          crc = (if oddparity ! unat (cdata AND 0x0F) XOR oddparity ! unat (drop_bit 4 cdata) \<noteq> 0
                 then crc XOR 0xC001 else crc);
          cdata = push_bit 6 cdata;
          crc = crc XOR cdata;
          cdata = push_bit 1 cdata;
          crc = crc XOR cdata
      in crc)"

lemma word_succ_unat:
  assumes "i < len"
  shows "unat (i + 1) = Suc (unat (i :: 'a::len word))"
proof -
  have "i + 1 \<noteq> 0"
  proof
    assume "i + 1 = 0"
    then have "i = - 1" by (simp add: eq_neg_iff_add_eq_0)
    with assms show False by simp
  qed
  then show ?thesis using unatSuc [of i] by (simp add: add.commute)
qed

lemma word_succ_diff_less:
  "i < len \<Longrightarrow> unat len - unat (i + 1) < unat len - unat (i :: 'a::len word)"
  using word_succ_unat [of i len] by (simp add: word_less_nat_alt)

function crc16_loop :: "uint8_t list \<Rightarrow> uint16_t \<Rightarrow> uint16_t \<Rightarrow> uint16_t \<Rightarrow> uint16_t" where
  "crc16_loop input len i crc =
     (if i < len then crc16_loop input len (i + 1) (crc16_step (input ! unat i) crc) else crc)"
  by pat_completeness auto
termination
  by (relation "measure (\<lambda>(input, len, i, crc). unat len - unat i)")
     (auto simp: word_succ_diff_less)

declare crc16_loop.simps [simp del]

definition onewire_crc16 :: "uint8_t list \<Rightarrow> uint16_t \<Rightarrow> uint16_t \<Rightarrow> uint16_t" where
  "onewire_crc16 input len crc = crc16_loop input len 0 crc"

definition onewire_check_crc16 :: "uint8_t list \<Rightarrow> uint16_t \<Rightarrow> uint8_t list \<Rightarrow> uint16_t \<Rightarrow> bool" where
  "onewire_check_crc16 input len inverted_crc crc =
     (let crc = NOT (onewire_crc16 input len crc)
      in crc AND 0xFF = ucast (inverted_crc ! 0) \<and> drop_bit 8 crc = ucast (inverted_crc ! 1))"

subsection \<open>Test platforms and trace predicates\<close>

text \<open>
  A scripted line: the levels that successive \<open>gpio_read\<close> calls return are taken
  from a list; when the list is used up the line reads high (idle, pulled up).
\<close>

definition scripted :: "bool list platform" where
  "scripted = \<lparr>react = (\<lambda>e b. case e of Gpio_read _ _ \<Rightarrow> tl b | _ \<Rightarrow> b),
                level = (\<lambda>pin b. case b of [] \<Rightarrow> True | v # _ \<Rightarrow> v)\<rparr>"

text \<open>
  \<open>paired c es\<close>: in the events \<open>es\<close>, started with preemption suspended iff
  \<open>c\<close>, every \<open>taskENTER_CRITICAL\<close> is made with preemption enabled and is followed
  by its \<open>taskEXIT_CRITICAL\<close>, every \<open>taskEXIT_CRITICAL\<close> has its
  \<open>taskENTER_CRITICAL\<close> before it, and preemption is enabled at the end.
\<close>

fun paired :: "bool \<Rightarrow> event list \<Rightarrow> bool" where
  "paired c [] = (\<not> c)"
| "paired c (Enter_critical # es) = (\<not> c \<and> paired True es)"
| "paired c (Exit_critical # es) = (c \<and> paired False es)"
| "paired c (_ # es) = paired c es"

text \<open>\<open>k\<close> polls of the idle-wait loop of \<open>onewire_reset\<close> that read the line low.\<close>

definition idle_polls :: "uint8_t \<Rightarrow> nat \<Rightarrow> event list" where
  "idle_polls pin k = concat (replicate k [Delay_us 2, Gpio_read pin False])"

subsection \<open>Auxiliary definitions for the checksums\<close>

text \<open>One round of the bit loop of the CRC-8.\<close>

definition crc8_round :: "uint8_t \<Rightarrow> uint8_t" where
  "crc8_round c = (if c AND 1 \<noteq> 0 then drop_bit 1 c XOR 0x8C else drop_bit 1 c)"

text \<open>
  A table built by doubling: the table for one more constant \<open>c\<close> is the table so far
  followed by the table so far with \<open>c\<close> XORed into every entry.
\<close>

fun xor_table :: "uint8_t list \<Rightarrow> uint8_t list" where
  "xor_table [] = [0]"
| "xor_table (c # cs) = xor_table cs @ map (\<lambda>y. y XOR c) (xor_table cs)"

subsection \<open>Auxiliary definitions for the search\<close>

text \<open>
  The direction the body of the search loop takes, as a function of the two bits read, the
  bit number, \<open>last_discrepancy\<close> and the bit of the working ROM buffer at this position.
\<close>

definition search_direction :: "uint8_t \<Rightarrow> uint8_t \<Rightarrow> uint8_t \<Rightarrow> uint8_t \<Rightarrow> bool \<Rightarrow> uint8_t" where
  "search_direction id_bit cmp_id_bit id_bit_number ld rom_bit =
     (if id_bit \<noteq> cmp_id_bit then id_bit
      else if id_bit_number < ld then (if rom_bit then 1 else 0)
      else (if id_bit_number = ld then 1 else 0))"

text \<open>The reaction of the attached hardware to a list of events.\<close>

definition replay :: "'b platform \<Rightarrow> event list \<Rightarrow> 'b \<Rightarrow> 'b" where
  "replay P es b = foldl (\<lambda>b e. react P e b) b es"

text \<open>The events of one write slot and of the two halves of one read slot.\<close>

definition write_slot :: "uint8_t \<Rightarrow> bool \<Rightarrow> event list" where
  "write_slot pin v =
     (if v then [Enter_critical, Gpio_write pin False, Delay_us 10, Gpio_write pin True,
                 Exit_critical, Delay_us 55]
      else [Enter_critical, Gpio_write pin False, Delay_us 65, Gpio_write pin True,
            Exit_critical, Delay_us 5])"

definition read_slot_open :: "uint8_t \<Rightarrow> event list" where
  "read_slot_open pin =
     [Enter_critical, Gpio_write pin False, Delay_us 3, Gpio_write pin True, Delay_us 10]"

definition read_slot_close :: "uint8_t \<Rightarrow> bool \<Rightarrow> event list" where
  "read_slot_close pin v = [Gpio_read pin v, Exit_critical, Delay_us 53]"

text \<open>Sequences of calls of the three search functions on one Search State.\<close>

datatype search_call = Search_start | Search_prefix uint8_t | Search_next

fun do_call ::
  "'b platform \<Rightarrow> onewire_addr_t \<Rightarrow> uint8_t \<Rightarrow> search_call \<Rightarrow> onewire_search_t \<times> 'b world
    \<Rightarrow> onewire_search_t \<times> 'b world" where
  "do_call P NONE pin Search_start (s, w) = (onewire_search_start, w)"
| "do_call P NONE pin (Search_prefix family_code) (s, w) = (onewire_search_prefix s family_code, w)"
| "do_call P NONE pin Search_next (s, w) = snd (onewire_search_next P NONE s pin w)"

fun run_calls ::
  "'b platform \<Rightarrow> onewire_addr_t \<Rightarrow> uint8_t \<Rightarrow> search_call list \<Rightarrow> onewire_search_t \<times> 'b world
    \<Rightarrow> (onewire_search_t \<times> 'b world) list" where
  "run_calls P NONE pin [] sw = []"
| "run_calls P NONE pin (c # cs) sw =
     do_call P NONE pin c sw # run_calls P NONE pin cs (do_call P NONE pin c sw)"

text \<open>
  States and lines for closed examples: a state seeded with family code 0x28, a line that
  idles, answers the reset with a presence pulse and then stays high, and the state after
  the last device of an enumeration. The examples take all ones for \<open>ONEWIRE_NONE\<close>;
  the theorems hold for every value of it.
\<close>

definition family_state :: onewire_search_t where
  "family_state = onewire_search_prefix onewire_search_start 0x28"

definition silent_after_presence :: "bool list world" where
  "silent_after_presence = ([], [True, False, True, True])"

definition example_none :: onewire_addr_t where
  "example_none = 0xFFFFFFFFFFFFFFFF"

definition last_found_state :: onewire_search_t where
  "last_found_state =
     \<lparr>rom_no = [0x28, 0x01, 0x02, 0x03, 0x04, 0x05, 0x06, 0x9C], last_discrepancy = 0,
      last_device_found = True\<rparr>"

text \<open>
  The bit of the working ROM buffer at bit position \<open>q\<close> (0 to 63): bit \<open>q mod 8\<close> of
  byte \<open>q div 8\<close>, as the loop addresses it with \<open>rom_byte_number\<close> and
  \<open>rom_byte_mask\<close>.
\<close>

definition rom_bit :: "uint8_t list \<Rightarrow> nat \<Rightarrow> bool" where
  "rom_bit rom q = (rom ! (q div 8) AND 2 ^ (q mod 8) \<noteq> 0)"

text \<open>
  The line of a bus with the single device \<open>a\<close>, as a script: it idles, answers the reset
  with a presence pulse, and then answers each pair of read slots with bit \<open>q\<close> of the
  address and its complement, from bit 0 up.
\<close>

definition answers_of :: "onewire_addr_t \<Rightarrow> nat \<Rightarrow> bool list" where
  "answers_of a p = concat (map (\<lambda>q. [bit a q, \<not> bit a q]) [p..<64])"

definition single_device_line :: "onewire_addr_t \<Rightarrow> bool list world" where
  "single_device_line a = ([], [True, False] @ answers_of a 0)"

subsection \<open>A bus with devices, at the level of the pin\<close>

text \<open>
  The enumeration of devices needs the devices themselves. The following platform is a
  model of the hardware the driver talks to, not of driver code: an open-drain line with a
  pull-up, the attached devices given by their 64-bit addresses, and a clock in
  microseconds that the delays of the driver advance.

  \<^item> The line reads low while the driver or a device holds it low.

  \<^item> A low pulse of the driver of at least 480 microseconds is a reset. The devices, if
    any, answer with a presence pulse from 30 to 150 microseconds after the release, and
    then expect a command byte.

  \<^item> Every shorter low pulse of the driver is a time slot. The driver writes 1 by
    releasing the line within 15 microseconds, and 0 by holding it longer. A device sends 0
    by holding the line low for 30 microseconds from the falling edge, and 1 by leaving the
    line alone.

  \<^item> After the command byte \<open>0xF0\<close> (search ROM) every device that still takes part
    sends, for each bit of its address from bit 0 up, the bit and then its complement, and
    then reads one bit from the driver; a device whose bit differs from the bit read drops
    out until the next reset. After bit 63 the bus is idle again.
\<close>

datatype search_slot = Send_bit | Send_complement | Receive_direction

datatype bus_phase =
    Idle
  | Command nat uint8_t
  | Searching "onewire_addr_t list" nat search_slot

datatype bus_answer = Quiet | Presence_pulse | Bit_low

record bus_state =
  devices :: "onewire_addr_t list"
  phase :: bus_phase
  driven_low :: bool
  since_fall :: nat
  since_rise :: nat
  answer :: bus_answer

definition bus_init :: "onewire_addr_t list \<Rightarrow> bus_state" where
  "bus_init devs =
     \<lparr>devices = devs, phase = Idle, driven_low = False, since_fall = 0, since_rise = 0,
      answer = Quiet\<rparr>"

definition pulled_low :: "bus_state \<Rightarrow> bool" where
  "pulled_low b =
     (case answer b of
        Quiet \<Rightarrow> False
      | Presence_pulse \<Rightarrow> 30 \<le> since_rise b \<and> since_rise b < 150
      | Bit_low \<Rightarrow> since_fall b < 30)"

definition bus_level :: "uint8_t \<Rightarrow> bus_state \<Rightarrow> bool" where
  "bus_level pin b = (\<not> driven_low b \<and> \<not> pulled_low b)"

text \<open>Whether some device sends 0 in the slot that begins.\<close>

definition sends_low :: "bus_phase \<Rightarrow> bool" where
  "sends_low ph =
     (case ph of
        Searching A i Send_bit \<Rightarrow> list_ex (\<lambda>a. \<not> bit a i) A
      | Searching A i Send_complement \<Rightarrow> list_ex (\<lambda>a. bit a i) A
      | _ \<Rightarrow> False)"

definition falling_edge :: "bus_state \<Rightarrow> bus_state" where
  "falling_edge b =
     b\<lparr>driven_low := True, since_fall := 0,
       answer := (if sends_low (phase b) then Bit_low else Quiet)\<rparr>"

text \<open>The phase after a time slot in which the driver has written the bit \<open>v\<close>.\<close>

definition slot_end :: "onewire_addr_t list \<Rightarrow> bool \<Rightarrow> bus_phase \<Rightarrow> bus_phase" where
  "slot_end devs v ph =
     (case ph of
        Idle \<Rightarrow> Idle
      | Command k byte \<Rightarrow>
          (let byte = (if v then byte OR push_bit k 1 else byte)
           in if k < 7 then Command (Suc k) byte
              else if byte = 0xF0 then Searching devs 0 Send_bit else Idle)
      | Searching A i Send_bit \<Rightarrow> Searching A i Send_complement
      | Searching A i Send_complement \<Rightarrow> Searching A i Receive_direction
      | Searching A i Receive_direction \<Rightarrow>
          (if i < 63 then Searching (filter (\<lambda>a. bit a i = v) A) (Suc i) Send_bit else Idle))"

definition rising_edge :: "bus_state \<Rightarrow> bus_state" where
  "rising_edge b =
     (if \<not> driven_low b then b
      else if 480 \<le> since_fall b then
        b\<lparr>driven_low := False, since_rise := 0, phase := Command 0 0,
          answer := (if devices b = [] then Quiet else Presence_pulse)\<rparr>
      else
        b\<lparr>driven_low := False, since_rise := 0,
          phase := slot_end (devices b) (since_fall b < 15) (phase b)\<rparr>)"

definition bus_react :: "event \<Rightarrow> bus_state \<Rightarrow> bus_state" where
  "bus_react e b =
     (case e of
        Gpio_write pin v \<Rightarrow> if v then rising_edge b else falling_edge b
      | Delay_us n \<Rightarrow> b\<lparr>since_fall := since_fall b + n, since_rise := since_rise b + n\<rparr>
      | _ \<Rightarrow> b)"

definition onewire_bus :: "bus_state platform" where
  "onewire_bus = \<lparr>react = bus_react, level = bus_level\<rparr>"

text \<open>
  Between two calls of the driver the line is released and no device holds it any more;
  \<open>bus_ok D ph w\<close> says so of the world \<open>w\<close>, with the devices \<open>D\<close> in phase \<open>ph\<close>.
\<close>

definition settled :: "bus_state \<Rightarrow> bool" where
  "settled b =
     (\<not> driven_low b \<and>
      (case answer b of
         Quiet \<Rightarrow> True
       | Presence_pulse \<Rightarrow> 150 \<le> since_rise b
       | Bit_low \<Rightarrow> 30 \<le> since_fall b))"

definition bus_ok :: "onewire_addr_t list \<Rightarrow> bus_phase \<Rightarrow> bus_state world \<Rightarrow> bool" where
  "bus_ok D ph w = (settled (snd w) \<and> phase (snd w) = ph \<and> devices (snd w) = D)"

text \<open>
  The caller's loop of an enumeration: \<open>n\<close> successive calls of \<open>onewire_search_next\<close> on
  one Search State, and the addresses they return, in order.
\<close>

fun search_seq ::
  "'b platform \<Rightarrow> onewire_addr_t \<Rightarrow> uint8_t \<Rightarrow> nat \<Rightarrow> onewire_search_t \<Rightarrow> 'b world
    \<Rightarrow> onewire_addr_t list" where
  "search_seq P NONE pin 0 s w = []"
| "search_seq P NONE pin (Suc n) s w =
     (case onewire_search_next P NONE s pin w of
        (a, s', w') \<Rightarrow> a # search_seq P NONE pin n s' w')"

subsection \<open>Auxiliary definitions for the order of enumeration\<close>

text \<open>
  Bits \<open>p\<close> to 63 of an address, lowest first. The search returns the addresses in the
  lexicographic order of these lists from bit 0, in which 0 comes before 1.
\<close>

definition bits_from :: "nat \<Rightarrow> onewire_addr_t \<Rightarrow> bool list" where
  "bits_from p a = map (bit a) [p..<64]"

text \<open>
  The bit walk of one search step, over the devices as bit lists: \<open>branch b A\<close> are the
  devices of \<open>A\<close> that stay after the direction \<open>b\<close>, without their first bit. In
  \<open>bwalk n k prev A\<close>, \<open>n\<close> bits remain, \<open>k\<close> counts the bits from the current one up to
  and including the last discrepancy of the step before (0 when that lies behind, or there
  was none) and \<open>prev\<close> are the bits of the ROM buffer from the current one on; the result
  is the list of the directions taken, and the count of the bits up to and including the
  last discrepancy at which 0 was taken (0 when there is none). \<open>ld_of A d\<close> is that
  count as a function of the address found, and \<open>direction k prev A\<close> the direction of
  the first bit.
\<close>

definition branch :: "bool \<Rightarrow> bool list list \<Rightarrow> bool list list" where
  "branch b A = map tl (filter (\<lambda>d. hd d = b) A)"

primrec bwalk :: "nat \<Rightarrow> nat \<Rightarrow> bool list \<Rightarrow> bool list list \<Rightarrow> bool list \<times> nat" where
  "bwalk 0 k prev A = ([], 0)"
| "bwalk (Suc n) k prev A =
     (let has0 = (branch False A \<noteq> []);
          has1 = (branch True A \<noteq> []);
          dir = (if has0 \<and> has1 then (if 1 < k then hd prev else k = 1) else has1);
          cz = bwalk n (k - 1) (tl prev) (branch dir A)
      in (dir # fst cz,
          if 0 < snd cz then Suc (snd cz) else if has0 \<and> has1 \<and> \<not> dir then 1 else 0))"

primrec ld_of :: "bool list list \<Rightarrow> bool list \<Rightarrow> nat" where
  "ld_of A [] = 0"
| "ld_of A (b # c) =
     (let r = ld_of (branch b A) c
      in if 0 < r then Suc r else if \<not> b \<and> branch True A \<noteq> [] then 1 else 0)"

definition uniform :: "nat \<Rightarrow> bool list list \<Rightarrow> bool" where
  "uniform n A = list_all (\<lambda>d. length d = n) A"

definition direction :: "nat \<Rightarrow> bool list \<Rightarrow> bool list list \<Rightarrow> bool" where
  "direction k prev A =
     (if branch False A \<noteq> [] \<and> branch True A \<noteq> [] then (if 1 < k then hd prev else k = 1)
      else branch True A \<noteq> [])"

section \<open>Properties\<close>

subsection \<open>Traces of the bit transport\<close>

lemma fst_emit [simp]: "fst (emit P e w) = fst w @ [e]"
  by (simp add: emit_def)

lemma emitted_append [simp]: "emitted w (fst w @ es, b) = es"
  by (simp add: emitted_def)

lemma emitted_eq: "fst w' = fst w @ es \<Longrightarrow> emitted w w' = es"
  by (simp add: emitted_def)

lemmas platform_defs = gpio_enable_def gpio_write_def gpio_read_def sdk_os_delay_us_def
  noInterrupts_def interrupts_def

lemma write_bit_trace:
  "fst (onewire_write_bit P pin v w) = fst w @
     (if v AND 1 \<noteq> 0
      then [Enter_critical, Gpio_write pin False, Delay_us 10, Gpio_write pin True, Exit_critical, Delay_us 55]
      else [Enter_critical, Gpio_write pin False, Delay_us 65, Gpio_write pin True, Exit_critical, Delay_us 5])"
  by (simp add: onewire_write_bit_def platform_defs Let_def)

lemma read_bit_trace:
  "\<exists>v. fst (snd (onewire_read_bit P pin w)) = fst w @
     [Enter_critical, Gpio_write pin False, Delay_us 3, Gpio_write pin True, Delay_us 10,
      Gpio_read pin v, Exit_critical, Delay_us 53] \<and> fst (onewire_read_bit P pin w) = (if v then 1 else 0)"
  by (simp add: onewire_read_bit_def platform_defs Let_def split: prod.splits)

lemma idle_polls_0 [simp]: "idle_polls pin 0 = []"
  by (simp add: idle_polls_def)

lemma idle_polls_Suc:
  "idle_polls pin (Suc k) = Delay_us 2 # Gpio_read pin False # idle_polls pin k"
  by (simp add: idle_polls_def)

lemma paired_idle_polls_append [simp]: "paired c (idle_polls pin k @ es) = paired c es"
  by (induction k) (simp_all add: idle_polls_Suc)

lemma paired_idle_polls [simp]: "paired c (idle_polls pin k) = (\<not> c)"
  using paired_idle_polls_append [of c pin k "[]"] by simp

lemma reset_wait_trace:
  "reset_wait P pin retries w = (idle, w') \<Longrightarrow>
     \<exists>k. fst w' = fst w @ idle_polls pin k
               @ (if idle then [Delay_us 2, Gpio_read pin True] else [])
       \<and> (if idle then k < unat (retries - 1) else k = unat (retries - 1))"
proof (induction P pin retries w arbitrary: idle w' rule: reset_wait.induct)
  case (1 P pin retries w)
  show ?case
  proof (cases "retries - 1 = 0")
    case True
    with "1.prems" show ?thesis
      by (subst (asm) reset_wait.simps) (auto simp: Let_def intro: exI [of _ 0])
  next
    case False
    define w1 where "w1 = sdk_os_delay_us P 2 w"
    define v where "v = fst (gpio_read P pin w1)"
    define w2 where "w2 = snd (gpio_read P pin w1)"
    have tr2: "fst w2 = fst w @ [Delay_us 2, Gpio_read pin v]"
      by (simp add: w2_def v_def w1_def platform_defs Let_def)
    have pos: "0 < unat (retries - 1)" using False by (simp add: unat_gt_0)
    show ?thesis
    proof (cases v)
      case True
      with "1.prems" False have "idle" "w' = w2"
        by (subst (asm) reset_wait.simps; simp add: Let_def w1_def v_def w2_def split: prod.splits)+
      then show ?thesis using tr2 True pos by (intro exI [of _ 0]) simp
    next
      case nv: False
      with "1.prems" False have rec: "reset_wait P pin (retries - 1) w2 = (idle, w')"
        by (subst (asm) reset_wait.simps) (simp add: Let_def w1_def v_def w2_def split: prod.splits)
      have "\<exists>k. fst w' = fst w2 @ idle_polls pin k
               @ (if idle then [Delay_us 2, Gpio_read pin True] else [])
         \<and> (if idle then k < unat (retries - 1 - 1) else k = unat (retries - 1 - 1))"
        using "1.IH" [of "retries - 1" w1 "gpio_read P pin w1" v w2 idle w'] False nv rec
        by (simp add: w1_def v_def w2_def)
      then obtain k where k: "fst w' = fst w2 @ idle_polls pin k
               @ (if idle then [Delay_us 2, Gpio_read pin True] else [])"
         "if idle then k < unat (retries - 1 - 1) else k = unat (retries - 1 - 1)" by blast
      have u: "unat (retries - 1 - 1) = unat (retries - 1) - 1"
        using False unat_minus_one [of "retries - 1"] by simp
      show ?thesis
        using k tr2 nv u pos by (intro exI [of _ "Suc k"]) (auto simp: idle_polls_Suc split: if_splits)
    qed
  qed
qed

lemma onewire_reset_shape:
  "(\<exists>k v. k < 124 \<and>
      fst (snd (onewire_reset P pin w)) = fst w @
        Gpio_enable pin GPIO_OUT_OPEN_DRAIN # Gpio_write pin True # idle_polls pin k @
        [Delay_us 2, Gpio_read pin True, Gpio_write pin False, Delay_us 480, Enter_critical,
         Gpio_write pin True, Delay_us 70, Gpio_read pin v, Exit_critical, Delay_us 410] \<and>
      fst (onewire_reset P pin w) = (if v then 0 else 1))
   \<or> (fst (snd (onewire_reset P pin w)) = fst w @
        Gpio_enable pin GPIO_OUT_OPEN_DRAIN # Gpio_write pin True # idle_polls pin 124 \<and>
      fst (onewire_reset P pin w) = 0)"
proof -
  define w1 where "w1 = gpio_write P pin True (gpio_enable P pin GPIO_OUT_OPEN_DRAIN w)"
  obtain idle w2 where rw: "reset_wait P pin 125 w1 = (idle, w2)" by (cases "reset_wait P pin 125 w1")
  have tr1: "fst w1 = fst w @ [Gpio_enable pin GPIO_OUT_OPEN_DRAIN, Gpio_write pin True]"
    by (simp add: w1_def platform_defs)
  have "unat (125 - 1 :: uint8_t) = 124" by simp
  with reset_wait_trace [OF rw] obtain k where
    k: "fst w2 = fst w1 @ idle_polls pin k @ (if idle then [Delay_us 2, Gpio_read pin True] else [])"
       "if idle then k < 124 else k = 124"
    by (auto simp only:)
  show ?thesis
  proof (cases idle)
    case False
    then have "onewire_reset P pin w = (0, w2)"
      using rw by (simp add: onewire_reset_def Let_def w1_def)
    then have "fst (snd (onewire_reset P pin w)) = fst w @
        Gpio_enable pin GPIO_OUT_OPEN_DRAIN # Gpio_write pin True # idle_polls pin 124 \<and>
      fst (onewire_reset P pin w) = 0"
      using k False tr1 by simp
    then show ?thesis by (rule disjI2)
  next
    case True
    define v where "v = level P pin (snd (sdk_os_delay_us P 70 (gpio_write P pin True (noInterrupts P
        (sdk_os_delay_us P 480 (gpio_write P pin False w2))))))"
    have "fst (onewire_reset P pin w) = (if v then 0 else 1)"
      using rw True by (simp add: onewire_reset_def Let_def w1_def v_def gpio_read_def split: prod.splits)
    moreover have "fst (snd (onewire_reset P pin w)) = fst w2 @ [Gpio_write pin False, Delay_us 480, Enter_critical,
         Gpio_write pin True, Delay_us 70, Gpio_read pin v, Exit_critical, Delay_us 410]"
      using rw True by (simp add: onewire_reset_def Let_def w1_def v_def platform_defs split: prod.splits)
    ultimately have "k < 124 \<and>
      fst (snd (onewire_reset P pin w)) = fst w @
        Gpio_enable pin GPIO_OUT_OPEN_DRAIN # Gpio_write pin True # idle_polls pin k @
        [Delay_us 2, Gpio_read pin True, Gpio_write pin False, Delay_us 480, Enter_critical,
         Gpio_write pin True, Delay_us 70, Gpio_read pin v, Exit_critical, Delay_us 410] \<and>
      fst (onewire_reset P pin w) = (if v then 0 else 1)"
      using k True tr1 by simp
    then show ?thesis by (intro disjI1 exI)
  qed
qed

subsection \<open>Slot timing\<close>

text \<open>
  C3 (as the code has it): the delays of one \<open>onewire_write_bit\<close> slot add up to a
  constant for each bit value, 65 microseconds (10 + 55) when bit 0 of the value is set
  and 70 microseconds (65 + 5) when it is clear.
\<close>

theorem write_bit_slot_duration:
  "total_delay (emitted w (onewire_write_bit P pin v w)) = (if v AND 1 \<noteq> 0 then 65 else 70)"
  by (simp add: emitted_eq [OF write_bit_trace])

text \<open>
  C3 as stated fails: the delays of the slot that writes 1 and of the slot that writes 0
  do not add up to the same total.
\<close>

theorem write_bit_slot_duration_differs:
  "total_delay (emitted ([], []) (onewire_write_bit scripted 0 1 ([], [])))
     \<noteq> total_delay (emitted ([], []) (onewire_write_bit scripted 0 0 ([], [])))"
  by (simp add: emitted_eq [OF write_bit_trace])

subsection \<open>Reset\<close>

text \<open>
  C5: \<open>onewire_reset\<close> has two shapes. Either one of the first 124 polls of the
  idle-wait loop reads the line high; then the reset pulse and the presence sample
  follow and the last event before the return is the 410 microsecond recovery delay,
  whatever the presence sample \<open>v\<close> was (result 1 for a low sample, 0 for a high
  one). Or all 124 polls (of 2 microseconds each) read the line low; then the function
  returns 0 at once, with no reset pulse and no recovery delay.
\<close>

theorem reset_recovery_delay:
  "case onewire_reset P pin w of (r, w') \<Rightarrow>
     (\<exists>k v. k < 124 \<and>
        emitted w w' =
          Gpio_enable pin GPIO_OUT_OPEN_DRAIN # Gpio_write pin True # idle_polls pin k @
          [Delay_us 2, Gpio_read pin True, Gpio_write pin False, Delay_us 480, Enter_critical,
           Gpio_write pin True, Delay_us 70, Gpio_read pin v, Exit_critical, Delay_us 410] \<and>
        last (emitted w w') = Delay_us 410 \<and>
        r = (if v then 0 else 1))
     \<or> (emitted w w' =
          Gpio_enable pin GPIO_OUT_OPEN_DRAIN # Gpio_write pin True # idle_polls pin 124 \<and>
        r = 0)"
proof -
  obtain r w' where r: "onewire_reset P pin w = (r, w')" by (cases "onewire_reset P pin w")
  from onewire_reset_shape [of P pin w] show ?thesis
  proof (elim disjE exE conjE)
    fix k v
    assume "k < 124" and tr: "fst (snd (onewire_reset P pin w)) = fst w @
        Gpio_enable pin GPIO_OUT_OPEN_DRAIN # Gpio_write pin True # idle_polls pin k @
        [Delay_us 2, Gpio_read pin True, Gpio_write pin False, Delay_us 480, Enter_critical,
         Gpio_write pin True, Delay_us 70, Gpio_read pin v, Exit_critical, Delay_us 410]"
      and "fst (onewire_reset P pin w) = (if v then 0 else 1)"
    then have "k < 124 \<and>
        emitted w w' =
          Gpio_enable pin GPIO_OUT_OPEN_DRAIN # Gpio_write pin True # idle_polls pin k @
          [Delay_us 2, Gpio_read pin True, Gpio_write pin False, Delay_us 480, Enter_critical,
           Gpio_write pin True, Delay_us 70, Gpio_read pin v, Exit_critical, Delay_us 410] \<and>
        last (emitted w w') = Delay_us 410 \<and>
        r = (if v then 0 else 1)"
      using r by (simp add: emitted_def)
    then show ?thesis unfolding r prod.case by (intro disjI1 exI)
  next
    assume "fst (snd (onewire_reset P pin w)) = fst w @
        Gpio_enable pin GPIO_OUT_OPEN_DRAIN # Gpio_write pin True # idle_polls pin 124"
      and "fst (onewire_reset P pin w) = 0"
    then have "emitted w w' =
          Gpio_enable pin GPIO_OUT_OPEN_DRAIN # Gpio_write pin True # idle_polls pin 124 \<and>
        r = 0"
      using r by (simp add: emitted_def)
    then show ?thesis unfolding r prod.case by (rule disjI2)
  qed
qed

subsection \<open>Critical sections\<close>

text \<open>
  C10: on every path of \<open>onewire_write_bit\<close>, \<open>onewire_read_bit\<close> and
  \<open>onewire_reset\<close> each \<open>taskENTER_CRITICAL\<close> is followed by exactly one
  \<open>taskEXIT_CRITICAL\<close> before the function returns; no function returns with
  preemption suspended.
\<close>

theorem critical_sections_paired:
  "paired False (emitted w (onewire_write_bit P pin v w)) \<and>
   paired False (emitted w (snd (onewire_read_bit P pin w))) \<and>
   paired False (emitted w (snd (onewire_reset P pin w)))"
proof (intro conjI)
  show "paired False (emitted w (onewire_write_bit P pin v w))"
    by (simp add: emitted_eq [OF write_bit_trace])
  obtain u where "fst (snd (onewire_read_bit P pin w)) = fst w @
     [Enter_critical, Gpio_write pin False, Delay_us 3, Gpio_write pin True, Delay_us 10,
      Gpio_read pin u, Exit_critical, Delay_us 53]"
    using read_bit_trace [of P pin w] by blast
  then show "paired False (emitted w (snd (onewire_read_bit P pin w)))"
    by (simp add: emitted_eq)
  from onewire_reset_shape [of P pin w]
  show "paired False (emitted w (snd (onewire_reset P pin w)))"
  proof (elim disjE exE conjE)
    fix k v
    assume "fst (snd (onewire_reset P pin w)) = fst w @
        Gpio_enable pin GPIO_OUT_OPEN_DRAIN # Gpio_write pin True # idle_polls pin k @
        [Delay_us 2, Gpio_read pin True, Gpio_write pin False, Delay_us 480, Enter_critical,
         Gpio_write pin True, Delay_us 70, Gpio_read pin v, Exit_critical, Delay_us 410]"
    then show ?thesis by (simp add: emitted_def)
  next
    assume "fst (snd (onewire_reset P pin w)) = fst w @
        Gpio_enable pin GPIO_OUT_OPEN_DRAIN # Gpio_write pin True # idle_polls pin 124"
    then show ?thesis by (simp add: emitted_def)
  qed
qed

subsection \<open>CRC-16 check\<close>

lemma mask8_16: "(0xFF :: uint16_t) = mask 8"
  by (simp add: mask_eq_exp_minus_1)

lemma low_byte_eq: "(c AND 0xFF = ucast b) \<longleftrightarrow> (b = ucast c)" for c :: uint16_t and b :: uint8_t
proof
  assume "c AND 0xFF = ucast b"
  then have "ucast (c AND mask 8) = (ucast (ucast b :: uint16_t) :: uint8_t)" by (simp add: mask8_16)
  then show "b = ucast c"
    by (simp add: bit_eq_iff bit_simps)
next
  assume "b = ucast c"
  then show "c AND 0xFF = ucast b"
    unfolding mask8_16 using bit_imp_le_length [of b]
    by (auto simp add: bit_eq_iff bit_simps)
qed

lemma high_byte_eq: "(drop_bit 8 c = ucast b) \<longleftrightarrow> (b = ucast (drop_bit 8 c))" for c :: uint16_t and b :: uint8_t
proof
  assume "drop_bit 8 c = ucast b"
  then have "ucast (drop_bit 8 c) = (ucast (ucast b :: uint16_t) :: uint8_t)" by simp
  then show "b = ucast (drop_bit 8 c)"
    by (simp add: bit_eq_iff bit_simps)
next
  assume b: "b = ucast (drop_bit 8 c)"
  show "drop_bit 8 c = ucast b"
  proof (rule bit_word_eqI)
    fix n assume "n < LENGTH(16)"
    show "bit (drop_bit 8 c) n = bit (ucast b :: uint16_t) n"
      using bit_imp_le_length [of c "8 + n"] by (auto simp: b bit_simps)
  qed
qed

text \<open>
  C6: for every input, length and seed, \<open>onewire_check_crc16\<close> accepts the two bytes
  of the bitwise-inverted \<open>onewire_crc16\<close> of the same data and seed, low byte first;
  and it returns true exactly when the first received byte is the low byte and the second
  received byte is the high byte of the inverted computed CRC.
\<close>

theorem check_crc16_inverted:
  "onewire_check_crc16 input len
      [ucast (NOT (onewire_crc16 input len crc)), ucast (drop_bit 8 (NOT (onewire_crc16 input len crc)))] crc
   \<and> (onewire_check_crc16 input len inverted_crc crc \<longleftrightarrow>
        inverted_crc ! 0 = ucast (NOT (onewire_crc16 input len crc)) \<and>
        inverted_crc ! 1 = ucast (drop_bit 8 (NOT (onewire_crc16 input len crc))))"
  by (simp add: onewire_check_crc16_def Let_def low_byte_eq high_byte_eq)

subsection \<open>CRC-8: table against bit loop\<close>

lemma crc8_bits_unfold:
  "crc8_bits i c b =
     (if i = 0 then c else crc8_bits (i - 1) (crc8_round (c XOR b) XOR drop_bit 1 b) (drop_bit 1 b))"
proof -
  have "drop_bit 1 (c XOR b) XOR drop_bit 1 b = drop_bit 1 c"
    by (auto simp: bit_eq_iff bit_simps)
  then have e: "(if (c XOR b) AND 1 \<noteq> 0 then drop_bit 1 c XOR 0x8C else drop_bit 1 c)
     = crc8_round (c XOR b) XOR drop_bit 1 b"
    by (auto simp: crc8_round_def xor.assoc xor.left_commute xor.commute)
  show ?thesis
  proof (cases "i = 0")
    case True
    then show ?thesis by (subst crc8_bits.simps) simp
  next
    case False
    then have "crc8_bits i c b = crc8_bits (i - 1)
        (if (c XOR b) AND 1 \<noteq> 0 then drop_bit 1 c XOR 0x8C else drop_bit 1 c) (drop_bit 1 b)"
      by (subst crc8_bits.simps) (simp add: Let_def)
    then show ?thesis using False by (simp only: e if_False)
  qed
qed

lemma crc8_bits_xor:
  "crc8_bits i c b = crc8_bits i (c XOR b) 0 XOR drop_bit (unat i) b"
proof (induction "unat i" arbitrary: i c b)
  case 0
  then have "i = 0" by (simp add: unat_eq_0)
  then show ?case by (simp add: crc8_bits_unfold [of 0] xor.assoc)
next
  case (Suc n)
  then have nz: "i \<noteq> 0" by auto
  have n: "n = unat (i - 1)" using Suc.hyps(2) nz by (simp add: unat_minus_one)
  have ui: "unat i = Suc (unat (i - 1))" using Suc.hyps(2) n by simp
  have l: "crc8_bits i c b = crc8_bits (i - 1) (crc8_round (c XOR b) XOR drop_bit 1 b) (drop_bit 1 b)"
    using nz by (subst crc8_bits_unfold) simp
  have r: "crc8_bits i (c XOR b) 0 = crc8_bits (i - 1) (crc8_round (c XOR b)) 0"
    using nz by (subst crc8_bits_unfold) simp
  have d: "drop_bit (unat (i - 1)) (drop_bit 1 b) = drop_bit (unat i) b"
    by (simp add: ui drop_bit_drop_bit)
  have "crc8_bits (i - 1) (crc8_round (c XOR b) XOR drop_bit 1 b) (drop_bit 1 b)
      = crc8_bits (i - 1) ((crc8_round (c XOR b) XOR drop_bit 1 b) XOR drop_bit 1 b) 0
          XOR drop_bit (unat (i - 1)) (drop_bit 1 b)"
    by (rule Suc.hyps(1) [OF n])
  also have "(crc8_round (c XOR b) XOR drop_bit 1 b) XOR drop_bit 1 b = crc8_round (c XOR b)"
    by (simp add: xor.assoc)
  finally show ?case
    unfolding l r d .
qed

lemma crc8_bits_byte: "crc8_bits 8 c b = crc8_bits 8 (c XOR b) 0"
  using crc8_bits_xor [of 8 c b] by (simp add: drop_bit_word_beyond)

lemma crc8_round_xor: "crc8_round (x XOR y) = crc8_round x XOR crc8_round y"
proof -
  have b: "(x XOR y) AND 1 \<noteq> 0 \<longleftrightarrow> (x AND 1 \<noteq> 0) \<noteq> (y AND 1 \<noteq> 0)"
    by (auto simp add: and_one_eq mod_2_eq_odd even_xor_iff)
  have d: "drop_bit 1 (x XOR y) = drop_bit 1 x XOR drop_bit 1 y"
    by (simp add: bit_eq_iff bit_simps)
  show ?thesis
    unfolding crc8_round_def b d
    by (auto simp: xor.assoc xor.left_commute xor.commute)
qed

lemma crc8_bits_linear:
  "crc8_bits i (x XOR y) 0 = crc8_bits i x 0 XOR crc8_bits i y 0"
proof (induction "unat i" arbitrary: i x y)
  case 0
  then have "i = 0" by (simp add: unat_eq_0)
  then show ?case by (simp add: crc8_bits_unfold [of 0])
next
  case (Suc n)
  then have nz: "i \<noteq> 0" by auto
  have n: "n = unat (i - 1)" using Suc.hyps(2) nz by (simp add: unat_minus_one)
  have u: "crc8_bits i z 0 = crc8_bits (i - 1) (crc8_round z) 0" for z
    using nz by (subst crc8_bits_unfold) simp
  show ?case
    unfolding u crc8_round_xor by (rule Suc.hyps(1) [OF n])
qed

lemma dscrc_table_xor: "dscrc_table = xor_table [140, 70, 35, 157, 194, 97, 188, 94]"
  by (simp add: dscrc_table_def)

lemma of_nat_add_exp:
  assumes "n < 2 ^ k"
  shows "(of_nat n + 2 ^ k :: uint8_t) = of_nat n XOR 2 ^ k"
proof -
  have "\<not> bit n k" using assms by (simp add: bit_iff_odd)
  then have "n AND 2 ^ k = 0" by (simp add: and_exp_eq_0_iff_not_bit)
  then have "n + 2 ^ k = n XOR 2 ^ k" by (rule disjunctive_add_eq_xor)
  then have "(of_nat (n + 2 ^ k) :: uint8_t) = of_nat (n XOR 2 ^ k)" by simp
  then show ?thesis by (simp add: of_nat_xor_eq)
qed

lemma unat8_less: "unat (x :: uint8_t) < 256"
  using unsigned_less [of x] by simp

lemma xor_table_linear:
  assumes lin: "\<And>x y. F (x XOR y) = F x XOR F (y :: uint8_t)"
  shows "xor_table (map (\<lambda>j. F (2 ^ j)) (rev [0..<k])) = map (\<lambda>n. F (of_nat n)) [0..<2 ^ k]"
proof (induction k)
  case 0
  have "F 0 = F 0 XOR F 0" using lin [of 0 0] by simp
  then have "F 0 = 0" by simp
  then show ?case by simp
next
  case (Suc k)
  have "map (\<lambda>n. F (of_nat n)) [2 ^ k..<2 ^ k + 2 ^ k]
      = map (\<lambda>n. F (of_nat n)) (map (\<lambda>i. i + 2 ^ k) [0..<2 ^ k])"
    by (simp only: map_add_upt)
  also have "\<dots> = map (\<lambda>n. F (of_nat (n + 2 ^ k))) [0..<2 ^ k]"
    by (simp add: comp_def)
  also have "\<dots> = map (\<lambda>n. F (of_nat n) XOR F (2 ^ k)) [0..<2 ^ k]"
    by (rule map_cong) (simp_all add: of_nat_add_exp lin)
  finally have hi: "map (\<lambda>n. F (of_nat n)) [2 ^ k..<2 ^ k + 2 ^ k]
      = map (\<lambda>y. y XOR F (2 ^ k)) (map (\<lambda>n. F (of_nat n)) [0..<2 ^ k])"
    by (simp add: comp_def)
  have e: "(2::nat) ^ Suc k = 2 ^ k + 2 ^ k" by simp
  have split: "[0..<2 ^ Suc k] = [0..<2 ^ k] @ [2 ^ k..<2 ^ k + 2 ^ k]"
    unfolding e by (rule upt_add_eq_append) simp
  have l: "xor_table (map (\<lambda>j. F (2 ^ j)) (rev [0..<Suc k]))
      = map (\<lambda>n. F (of_nat n)) [0..<2 ^ k]
        @ map (\<lambda>y. y XOR F (2 ^ k)) (map (\<lambda>n. F (of_nat n)) [0..<2 ^ k])"
    by (simp add: Suc.IH)
  have r: "map (\<lambda>n. F (of_nat n)) [0..<2 ^ Suc k]
      = map (\<lambda>n. F (of_nat n)) [0..<2 ^ k] @ map (\<lambda>n. F (of_nat n)) [2 ^ k..<2 ^ k + 2 ^ k]"
    by (simp only: split map_append)
  show ?case unfolding l r hi ..
qed

lemma crc8_bits_0: "crc8_bits i c 0 = (if i = 0 then c else crc8_bits (i - 1) (crc8_round c) 0)"
  by (subst crc8_bits_unfold) simp

lemma crc8_bits_exp:
  "map (\<lambda>j. crc8_bits 8 (2 ^ j) 0) (rev [0..<8]) = [140, 70, 35, 157, 194, 97, 188, 94]"
  by (simp add: upt_rec crc8_bits_0 crc8_round_def)

lemma dscrc_table_bits: "dscrc_table ! unat x = crc8_bits 8 x 0"
proof -
  have t: "dscrc_table = map (\<lambda>n. crc8_bits 8 (of_nat n) 0) [0..<2 ^ 8]"
    unfolding dscrc_table_xor crc8_bits_exp [symmetric]
    by (rule xor_table_linear) (rule crc8_bits_linear)
  have lt: "unat x < 2 ^ 8 - 0" using unat8_less [of x] by simp
  have "map (\<lambda>n. crc8_bits 8 (of_nat n) 0) [0..<2 ^ 8] ! unat x
      = crc8_bits 8 (of_nat (0 + unat x)) 0"
    by (rule nth_map_upt [OF lt])
  then show ?thesis by (simp only: t add_0 of_nat_unat ucast_id)
qed

lemma crc8_loops_equal:
  "crc8_table_loop addr i len crc = crc8_bitwise_loop addr i len crc"
proof (induction "unat len" arbitrary: i len crc)
  case 0
  then have "len = 0" by (simp add: unat_eq_0)
  then show ?case by (simp add: crc8_table_loop.simps crc8_bitwise_loop.simps)
next
  case (Suc n)
  then have nz: "len \<noteq> 0" by auto
  have n: "n = unat (len - 1)" using Suc.hyps(2) nz by (simp add: unat_minus_one)
  have "crc8_table_loop addr i len crc
      = crc8_table_loop addr (i + 1) (len - 1) (dscrc_table ! unat (crc XOR addr ! i))"
    using nz by (subst crc8_table_loop.simps) simp
  also have "\<dots> = crc8_bitwise_loop addr (i + 1) (len - 1) (dscrc_table ! unat (crc XOR addr ! i))"
    by (rule Suc.hyps(1) [OF n])
  also have "dscrc_table ! unat (crc XOR addr ! i) = crc8_bits 8 crc (addr ! i)"
    by (simp only: dscrc_table_bits crc8_bits_byte [symmetric])
  also have "crc8_bitwise_loop addr (i + 1) (len - 1) (crc8_bits 8 crc (addr ! i))
      = crc8_bitwise_loop addr i len crc"
    using nz by (subst (2) crc8_bitwise_loop.simps) simp
  finally show ?case .
qed

text \<open>
  C7: for every buffer and length the table-driven \<open>onewire_crc8\<close> and the bitwise
  \<open>onewire_crc8\<close> return the same value. Both loops read the same bytes in the same
  order, so this holds for every \<open>len\<close>, in particular when \<open>len\<close> is the number of
  bytes of \<open>addr\<close>.
\<close>

theorem crc8_table_eq_bitwise: "onewire_crc8_table addr len = onewire_crc8_bitwise addr len"
  by (simp add: onewire_crc8_table_def onewire_crc8_bitwise_def crc8_loops_equal)

subsection \<open>The search step\<close>

lemma search_body_eq:
  "search_body P pin n lz rbn m s w =
     (let r1 = onewire_read_bit P pin w;
          r2 = onewire_read_bit P pin (snd r1);
          d = search_direction (fst r1) (fst r2) n (last_discrepancy s) (rom_no s ! nat rbn AND m \<noteq> 0)
      in if fst r1 = 1 \<and> fst r2 = 1 then (True, n, lz, rbn, m, s, snd r2)
         else (False, n + 1, (if fst r1 = fst r2 \<and> d = 0 then n else lz),
               (if push_bit 1 m = 0 then rbn + 1 else rbn),
               (if push_bit 1 m = 0 then 1 else push_bit 1 m),
               s\<lparr>rom_no := (rom_no s)[nat rbn :=
                    if d = 1 then rom_no s ! nat rbn OR m else rom_no s ! nat rbn AND NOT m]\<rparr>,
               onewire_write_bit P pin d (snd r2)))"
  by (simp add: search_body_def search_direction_def Let_def split: prod.splits)

lemma pos_next:
  assumes "p < 64"
  shows "(if push_bit 1 (2 ^ (p mod 8) :: uint8_t) = 0 then int (p div 8) + 1 else int (p div 8))
            = int (Suc p div 8)"
    and "(if push_bit 1 (2 ^ (p mod 8) :: uint8_t) = 0 then 1 else push_bit 1 (2 ^ (p mod 8)))
            = (2 ^ (Suc p mod 8) :: uint8_t)"
    and "(int (Suc p div 8) < 8) = (Suc p < 64)"
proof -
  have z: "push_bit 1 (2 ^ (p mod 8) :: uint8_t) = 0 \<longleftrightarrow> p mod 8 = 7"
  proof -
    have "push_bit 1 (2 ^ (p mod 8) :: uint8_t) = 2 ^ Suc (p mod 8)" by (simp add: push_bit_eq_mult)
    moreover have "p mod 8 < 8" by simp
    ultimately show ?thesis by (simp only: exp_eq_zero_iff) auto
  qed
  show "(if push_bit 1 (2 ^ (p mod 8) :: uint8_t) = 0 then int (p div 8) + 1 else int (p div 8))
            = int (Suc p div 8)"
    unfolding z by (simp add: div_Suc mod_Suc)
  show "(if push_bit 1 (2 ^ (p mod 8) :: uint8_t) = 0 then 1 else push_bit 1 (2 ^ (p mod 8)))
            = (2 ^ (Suc p mod 8) :: uint8_t)"
    unfolding z by (simp add: mod_Suc push_bit_eq_mult)
  show "(int (Suc p div 8) < 8) = (Suc p < 64)" by auto
qed

lemma search_loop_pos:
  assumes "p < 64"
  shows "search_loop P pin (of_nat (Suc p)) lz (int (p div 8)) (2 ^ (p mod 8)) s w =
     (let r1 = onewire_read_bit P pin w;
          r2 = onewire_read_bit P pin (snd r1);
          d = search_direction (fst r1) (fst r2) (of_nat (Suc p)) (last_discrepancy s)
                (rom_no s ! (p div 8) AND 2 ^ (p mod 8) \<noteq> 0);
          lz' = (if fst r1 = fst r2 \<and> d = 0 then of_nat (Suc p) else lz);
          s' = s\<lparr>rom_no := (rom_no s)[p div 8 :=
                    if d = 1 then rom_no s ! (p div 8) OR 2 ^ (p mod 8)
                    else rom_no s ! (p div 8) AND NOT (2 ^ (p mod 8))]\<rparr>;
          w' = onewire_write_bit P pin d (snd r2)
      in if fst r1 = 1 \<and> fst r2 = 1 then (True, of_nat (Suc p), lz, s, snd r2)
         else if Suc p < 64 then
           search_loop P pin (of_nat (Suc (Suc p))) lz' (int (Suc p div 8)) (2 ^ (Suc p mod 8)) s' w'
         else (False, 65, lz', s', w'))"
proof -
  have n65: "(of_nat p :: uint8_t) = 63" if "\<not> p < 63"
  proof -
    have "p = 63" using assms that by simp
    then show ?thesis by simp
  qed
  show ?thesis
    apply (subst search_loop.simps)
    apply (simp only: search_body_eq Let_def nat_int)
    apply (simp only: pos_next [OF assms] split: if_split)
    apply (auto simp: n65)
    done
qed

lemma unat_of_nat_Suc: "p < 64 \<Longrightarrow> unat (of_nat (Suc p) :: uint8_t) = Suc p"
  by (simp only: unat_of_nat) simp

lemma of_nat_Suc_le_64: "p < 64 \<Longrightarrow> (of_nat (Suc p) :: uint8_t) \<le> 64"
  by (simp only: word_le_nat_alt unat_of_nat_Suc) simp

lemma of_nat_Suc_less_65: "p < 64 \<Longrightarrow> (of_nat (Suc p) :: uint8_t) < 65"
  by (simp only: word_less_nat_alt unat_of_nat_Suc) simp

lemma search_loop_inv:
  assumes "p < 64" and "lz \<le> 64"
    and "search_loop P pin (of_nat (Suc p)) lz (int (p div 8)) (2 ^ (p mod 8)) s w = (brk, n, lz', s', w')"
  shows "(if brk then n < 65 else n = 65) \<and> lz' \<le> 64
    \<and> last_discrepancy s' = last_discrepancy s
    \<and> last_device_found s' = last_device_found s
    \<and> length (rom_no s') = length (rom_no s)"
  using assms
proof (induction "63 - p" arbitrary: p lz s w)
  case 0
  then have p: "p = 63" by simp
  show ?case
    using "0.prems"(3) "0.prems"(2) of_nat_Suc_le_64 [of 63] of_nat_Suc_less_65 [of 63]
    unfolding p
    by (subst (asm) search_loop_pos) (auto simp: Let_def split: if_splits)
next
  case (Suc k)
  then have p: "Suc p < 64" "k = 63 - Suc p" by simp_all
  define r1 where "r1 = onewire_read_bit P pin w"
  define r2 where "r2 = onewire_read_bit P pin (snd r1)"
  define d where "d = search_direction (fst r1) (fst r2) (of_nat (Suc p)) (last_discrepancy s)
                (rom_no s ! (p div 8) AND 2 ^ (p mod 8) \<noteq> 0)"
  define lz1 where "lz1 = (if fst r1 = fst r2 \<and> d = 0 then of_nat (Suc p) else lz)"
  define s1 where "s1 = s\<lparr>rom_no := (rom_no s)[p div 8 :=
                    if d = 1 then rom_no s ! (p div 8) OR 2 ^ (p mod 8)
                    else rom_no s ! (p div 8) AND NOT (2 ^ (p mod 8))]\<rparr>"
  define w1 where "w1 = onewire_write_bit P pin d (snd r2)"
  have step: "search_loop P pin (of_nat (Suc p)) lz (int (p div 8)) (2 ^ (p mod 8)) s w =
      (if fst r1 = 1 \<and> fst r2 = 1 then (True, of_nat (Suc p), lz, s, snd r2)
       else search_loop P pin (of_nat (Suc (Suc p))) lz1 (int (Suc p div 8)) (2 ^ (Suc p mod 8)) s1 w1)"
    using p(1) Suc.prems(1)
    by (subst search_loop_pos) (simp_all add: Let_def r1_def r2_def d_def lz1_def s1_def w1_def)
  show ?case
  proof (cases "fst r1 = 1 \<and> fst r2 = 1")
    case True
    then show ?thesis
      using Suc.prems(3) Suc.prems(2) of_nat_Suc_less_65 [OF Suc.prems(1)] unfolding step by auto
  next
    case False
    have rec: "search_loop P pin (of_nat (Suc (Suc p))) lz1 (int (Suc p div 8)) (2 ^ (Suc p mod 8)) s1 w1
        = (brk, n, lz', s', w')"
      using Suc.prems(3) unfolding step if_not_P [OF False] .
    have lz1: "lz1 \<le> 64"
      using Suc.prems(2) of_nat_Suc_le_64 [OF Suc.prems(1)] by (simp add: lz1_def)
    have "(if brk then n < 65 else n = 65) \<and> lz' \<le> 64
        \<and> last_discrepancy s' = last_discrepancy s1
        \<and> last_device_found s' = last_device_found s1
        \<and> length (rom_no s') = length (rom_no s1)"
      by (rule Suc.hyps(1) [OF p(2) p(1) lz1 rec])
    then show ?thesis by (simp add: s1_def)
  qed
qed

lemma replay_Nil [simp]: "replay P [] b = b"
  by (simp add: replay_def)

lemma replay_Cons [simp]: "replay P (e # es) b = replay P es (react P e b)"
  by (simp add: replay_def)

lemma replay_append: "replay P (es @ es') b = replay P es' (replay P es b)"
  by (simp add: replay_def)

lemma emit_replay: "emit P e w = (fst w @ [e], replay P [e] (snd w))"
  by (simp add: emit_def)

lemma write_bit_world:
  "onewire_write_bit P pin v w =
     (fst w @ write_slot pin (v AND 1 \<noteq> 0), replay P (write_slot pin (v AND 1 \<noteq> 0)) (snd w))"
  by (simp add: onewire_write_bit_def platform_defs Let_def emit_def write_slot_def)

lemma read_bit_world:
  "onewire_read_bit P pin w =
     (let b = replay P (read_slot_open pin) (snd w); v = level P pin b
      in (if v then 1 else 0,
          fst w @ read_slot_open pin @ read_slot_close pin v, replay P (read_slot_close pin v) b))"
  by (simp add: onewire_read_bit_def platform_defs Let_def emit_def read_slot_open_def
      read_slot_close_def)

lemma write_loop_bits:
  "k \<le> 8 \<Longrightarrow> write_loop P pin v (2 ^ k) w =
     fold (\<lambda>j. onewire_write_bit P pin (if bit v j then 1 else 0)) [k..<8] w"
proof (induction "8 - k" arbitrary: k w)
  case 0
  then have "k = 8" by simp
  then show ?case by (simp add: write_loop.simps)
next
  case (Suc n)
  then have k: "k < 8" "n = 8 - Suc k" "Suc k \<le> 8" by simp_all
  have nz: "(2 ^ k :: uint8_t) \<noteq> 0" using k(1) by simp
  have b: "((2 ^ k :: uint8_t) AND v \<noteq> 0) = bit v k"
    by (simp add: and.commute and_exp_eq_0_iff_not_bit)
  have "write_loop P pin v (2 ^ k) w
      = write_loop P pin v (2 ^ Suc k) (onewire_write_bit P pin (if bit v k then 1 else 0) w)"
    using nz by (subst write_loop.simps) (simp add: b push_bit_eq_mult mult.commute)
  also have "\<dots> = fold (\<lambda>j. onewire_write_bit P pin (if bit v j then 1 else 0)) [Suc k..<8]
      (onewire_write_bit P pin (if bit v k then 1 else 0) w)"
    by (rule Suc.hyps(1) [OF k(2) k(3)])
  finally show ?case using k(1) by (simp add: upt_conv_Cons)
qed

lemma onewire_write_bits:
  "onewire_write P pin v w =
     fold (\<lambda>j. onewire_write_bit P pin (if bit v j then 1 else 0)) [0..<8] w"
  using write_loop_bits [of 0 P pin v w] by (simp add: onewire_write_def)

lemma search_walk_inv:
  assumes "search_loop P pin 1 0 0 1 s w = (brk, n, lz, s', w')"
  shows "(if brk then n < 65 else n = 65) \<and> lz \<le> 64
    \<and> last_discrepancy s' = last_discrepancy s
    \<and> last_device_found s' = last_device_found s
    \<and> length (rom_no s') = length (rom_no s)"
  using search_loop_inv [of 0 0 P pin s w brk n lz s' w'] assms by simp

lemma search_next_cases:
  "onewire_search_next P NONE s pin w =
     (if last_device_found s then
        (NONE, s\<lparr>last_discrepancy := 0, last_device_found := False\<rparr>, w)
      else if fst (onewire_reset P pin w) = 0 then
        (NONE, s\<lparr>last_discrepancy := 0, last_device_found := False\<rparr>, snd (onewire_reset P pin w))
      else
        case search_loop P pin 1 0 0 1 s (onewire_write P pin 0xF0 (snd (onewire_reset P pin w))) of
          (brk, n, lz, s', w') \<Rightarrow>
            if brk \<or> rom_no s' ! 0 = 0 then
              (NONE, s'\<lparr>last_discrepancy := 0, last_device_found := False\<rparr>, w')
            else
              (assemble_addr (rom_no s') 7 0,
               s'\<lparr>last_discrepancy := lz, last_device_found := (lz = 0)\<rparr>, w'))"
proof (cases "last_device_found s")
  case True
  then show ?thesis by (simp add: onewire_search_next_def search_finish_def)
next
  case ldf: False
  obtain r w1 where r: "onewire_reset P pin w = (r, w1)" by (cases "onewire_reset P pin w")
  show ?thesis
  proof (cases "r = 0")
    case True
    then show ?thesis using ldf r by (simp add: onewire_search_next_def)
  next
    case False
    obtain brk n lz s' w' where
      l: "search_loop P pin 1 0 0 1 s (onewire_write P pin 0xF0 w1) = (brk, n, lz, s', w')"
      by (cases "search_loop P pin 1 0 0 1 s (onewire_write P pin 0xF0 w1)")
    note inv = search_walk_inv [OF l]
    have n: "(n < 65) = brk" using inv by (cases brk) simp_all
    have f: "last_device_found s' = False" using inv ldf by simp
    show ?thesis
      using ldf r False l
      by (cases brk) (auto simp: onewire_search_next_def search_finish_def Let_def n f)
  qed
qed

text \<open>
  C2 (as the code has it): called with \<open>last_device_found\<close> true,
  \<open>onewire_search_next\<close> returns \<open>ONEWIRE_NONE\<close> without any bus operation (the
  world is unchanged) and resets the Search State: \<open>last_discrepancy\<close> 0 and
  \<open>last_device_found\<close> false, so the next call starts a new enumeration.
\<close>

theorem search_next_exhausted:
  "last_device_found s \<Longrightarrow>
     onewire_search_next P NONE s pin w =
       (NONE, s\<lparr>last_discrepancy := 0, last_device_found := False\<rparr>, w)"
  by (simp add: search_next_cases)

text \<open>
  C4 (as the code has it): when the bit walk is left by \<open>break\<close> (a bit and its
  complement both read 1), \<open>onewire_search_next\<close> returns \<open>ONEWIRE_NONE\<close>. The walk
  itself does not write \<open>last_discrepancy\<close>; the failure path of the function then sets
  \<open>last_discrepancy\<close> to 0 and \<open>last_device_found\<close> to false.
\<close>

theorem search_next_abort:
  assumes "\<not> last_device_found s" and "fst (onewire_reset P pin w) \<noteq> 0"
    and "search_loop P pin 1 0 0 1 s (onewire_write P pin 0xF0 (snd (onewire_reset P pin w)))
          = (True, n, lz, s', w')"
  shows "onewire_search_next P NONE s pin w =
           (NONE, s'\<lparr>last_discrepancy := 0, last_device_found := False\<rparr>, w')
         \<and> last_discrepancy s' = last_discrepancy s"
  using assms search_walk_inv [OF assms(3)] by (simp add: search_next_cases)

lemma assemble_addr_unfold:
  "assemble_addr rom i a =
     (if i \<ge> 0 then assemble_addr rom (i - 1) (push_bit 8 a OR ucast (rom ! nat i)) else a)"
  by (subst assemble_addr.simps) simp

lemma assemble_addr_7:
  "assemble_addr rom 7 0 =
     ((((((push_bit 56 (ucast (rom ! 7)) OR push_bit 48 (ucast (rom ! 6))) OR
      push_bit 40 (ucast (rom ! 5))) OR push_bit 32 (ucast (rom ! 4))) OR
      push_bit 24 (ucast (rom ! 3))) OR push_bit 16 (ucast (rom ! 2))) OR
      push_bit 8 (ucast (rom ! 1))) OR ucast (rom ! 0)"
  by (simp add: assemble_addr_unfold [of _ 7] assemble_addr_unfold [of _ 6]
      assemble_addr_unfold [of _ 5] assemble_addr_unfold [of _ 4] assemble_addr_unfold [of _ 3]
      assemble_addr_unfold [of _ 2] assemble_addr_unfold [of _ 1] assemble_addr_unfold [of _ 0]
      assemble_addr_unfold [of _ "-1"])

lemma ucast_assemble_addr: "(ucast (assemble_addr rom 7 0) :: uint8_t) = rom ! 0"
  unfolding assemble_addr_7
  by (auto simp: bit_eq_iff bit_simps dest: bit_imp_le_length)

text \<open>
  C8: if the walk was aborted, or completed with a zero family-code byte in the working
  ROM buffer, \<open>onewire_search_next\<close> sets \<open>last_discrepancy\<close> to 0 and
  \<open>last_device_found\<close> to false and returns \<open>ONEWIRE_NONE\<close>. The state returned is
  the state \<open>s'\<close> the walk left, with these two fields reset: the working ROM buffer
  keeps what the walk wrote into it. Consequently every call either takes this no-device
  return or returns an address whose low byte, the family code, is not zero.
\<close>

theorem search_next_failure_resets:
  "(\<not> last_device_found s \<and> fst (onewire_reset P pin w) \<noteq> 0 \<and>
    search_loop P pin 1 0 0 1 s (onewire_write P pin 0xF0 (snd (onewire_reset P pin w)))
      = (brk, n, lz, s', w') \<and> (brk \<or> rom_no s' ! 0 = 0)
    \<longrightarrow> onewire_search_next P NONE s pin w =
          (NONE, s'\<lparr>last_discrepancy := 0, last_device_found := False\<rparr>, w'))
   \<and> (onewire_search_next P NONE s pin w = (a, t, u)
    \<longrightarrow> a = NONE \<and> last_discrepancy t = 0 \<and> \<not> last_device_found t
        \<or> (ucast a :: uint8_t) \<noteq> 0)"
proof (intro conjI impI)
  assume "\<not> last_device_found s \<and> fst (onewire_reset P pin w) \<noteq> 0 \<and>
    search_loop P pin 1 0 0 1 s (onewire_write P pin 0xF0 (snd (onewire_reset P pin w)))
      = (brk, n, lz, s', w') \<and> (brk \<or> rom_no s' ! 0 = 0)"
  then show "onewire_search_next P NONE s pin w =
          (NONE, s'\<lparr>last_discrepancy := 0, last_device_found := False\<rparr>, w')"
    by (simp add: search_next_cases)
next
  assume "onewire_search_next P NONE s pin w = (a, t, u)"
  then show "a = NONE \<and> last_discrepancy t = 0 \<and> \<not> last_device_found t
        \<or> (ucast a :: uint8_t) \<noteq> 0"
    by (auto simp: search_next_cases ucast_assemble_addr split: if_splits prod.splits)
qed

lemma search_next_ld_le:
  "last_discrepancy (fst (snd (onewire_search_next P NONE s pin w))) \<le> 64"
proof -
  obtain brk n lz s' w' where
    l: "search_loop P pin 1 0 0 1 s (onewire_write P pin 0xF0 (snd (onewire_reset P pin w)))
        = (brk, n, lz, s', w')"
    by (cases "search_loop P pin 1 0 0 1 s (onewire_write P pin 0xF0 (snd (onewire_reset P pin w)))")
  show ?thesis
    using search_walk_inv [OF l] by (simp add: search_next_cases l)
qed

lemma do_call_ld_le: "last_discrepancy (fst (do_call P NONE pin c sw)) \<le> 64"
proof -
  obtain s w where sw: "sw = (s, w)" by (cases sw)
  show ?thesis
    unfolding sw
    by (cases c) (simp_all add: search_next_ld_le onewire_search_start_def onewire_search_prefix_def
        Let_def upt_rec)
qed

text \<open>
  C9: after every call of every sequence of calls of \<open>onewire_search_start\<close>,
  \<open>onewire_search_prefix\<close> and \<open>onewire_search_next\<close>, from any state and on any
  platform, \<open>last_discrepancy\<close> is at most 64.
\<close>

theorem last_discrepancy_range:
  "list_all (\<lambda>sw. last_discrepancy (fst sw) \<le> 64) (run_calls P NONE pin calls sw)"
  by (induction calls arbitrary: sw) (simp_all add: do_call_ld_le)

lemma scripted_replay_write_slot [simp]: "replay scripted (write_slot pin v) b = b"
  by (simp add: write_slot_def scripted_def)

lemma scripted_write_bit: "snd (onewire_write_bit scripted pin v w) = snd w"
  by (simp add: write_bit_world)

lemma scripted_write: "snd (onewire_write scripted pin v w) = snd w"
proof -
  have "snd (fold (\<lambda>j. onewire_write_bit scripted pin (if bit v j then 1 else 0)) js w) = snd w" for js
    by (induction js arbitrary: w) (simp_all add: scripted_write_bit)
  then show ?thesis by (simp add: onewire_write_bits)
qed

lemma scripted_read_bit:
  "snd w = v # rest \<Longrightarrow>
     fst (onewire_read_bit scripted pin w) = (if v then 1 else 0) \<and>
     snd (snd (onewire_read_bit scripted pin w)) = rest"
  by (simp add: read_bit_world Let_def read_slot_open_def read_slot_close_def scripted_def)

lemma scripted_reset:
  "snd w = True # v # rest \<Longrightarrow>
     fst (onewire_reset scripted pin w) = (if v then 0 else 1) \<and>
     snd (snd (onewire_reset scripted pin w)) = rest"
  by (simp add: onewire_reset_def reset_wait.simps platform_defs emit_def scripted_def Let_def)

lemma scripted_walk_abort:
  assumes "snd w = True # True # rest"
  shows "search_loop scripted pin 1 0 0 1 s w
    = (True, 1, 0, s, snd (onewire_read_bit scripted pin (snd (onewire_read_bit scripted pin w))))"
proof -
  have 1: "fst (onewire_read_bit scripted pin w) = 1"
    "snd (snd (onewire_read_bit scripted pin w)) = True # rest"
    using scripted_read_bit [OF assms, of pin] by simp_all
  have 2: "fst (onewire_read_bit scripted pin (snd (onewire_read_bit scripted pin w))) = 1"
    using scripted_read_bit [OF 1(2), of pin] by simp
  show ?thesis
    using search_loop_pos [of 0 scripted pin 0 s w] by (simp add: Let_def 1 2)
qed

lemma family_state_simps:
  "last_discrepancy family_state = 64" "\<not> last_device_found family_state"
  by (simp_all add: family_state_def onewire_search_prefix_def onewire_search_start_def Let_def upt_rec)

lemma silent_walk:
  "fst (onewire_reset scripted 0 silent_after_presence) = 1"
  "search_loop scripted 0 1 0 0 1 s
     (onewire_write scripted 0 0xF0 (snd (onewire_reset scripted 0 silent_after_presence)))
   = (True, 1, 0, s, snd (onewire_read_bit scripted 0 (snd (onewire_read_bit scripted 0
        (onewire_write scripted 0 0xF0 (snd (onewire_reset scripted 0 silent_after_presence)))))))"
proof -
  have r: "fst (onewire_reset scripted 0 silent_after_presence) = 1 \<and>
     snd (snd (onewire_reset scripted 0 silent_after_presence)) = [True, True]"
    using scripted_reset [of silent_after_presence False "[True, True]" 0]
    by (simp add: silent_after_presence_def)
  then show "fst (onewire_reset scripted 0 silent_after_presence) = 1" by simp
  have "snd (onewire_write scripted 0 0xF0 (snd (onewire_reset scripted 0 silent_after_presence)))
      = True # True # []"
    using r by (simp add: scripted_write)
  then show "search_loop scripted 0 1 0 0 1 s
     (onewire_write scripted 0 0xF0 (snd (onewire_reset scripted 0 silent_after_presence)))
   = (True, 1, 0, s, snd (onewire_read_bit scripted 0 (snd (onewire_read_bit scripted 0
        (onewire_write scripted 0 0xF0 (snd (onewire_reset scripted 0 silent_after_presence)))))))"
    by (rule scripted_walk_abort)
qed

theorem search_next_abort_witness:
  "\<not> last_device_found family_state \<and>
   fst (onewire_reset scripted 0 silent_after_presence) \<noteq> 0 \<and>
   fst (search_loop scripted 0 1 0 0 1 family_state
     (onewire_write scripted 0 0xF0 (snd (onewire_reset scripted 0 silent_after_presence)))) \<and>
   fst (onewire_search_next scripted example_none family_state 0 silent_after_presence) = example_none \<and>
   last_discrepancy (fst (snd (onewire_search_next scripted example_none family_state 0
      silent_after_presence))) = 0"
  using search_next_abort [of family_state scripted 0 silent_after_presence 1 0 family_state
      "snd (onewire_read_bit scripted 0 (snd (onewire_read_bit scripted 0
        (onewire_write scripted 0 0xF0 (snd (onewire_reset scripted 0 silent_after_presence))))))"
      example_none]
  by (simp add: family_state_simps silent_walk)

text \<open>
  C4 as stated fails: seeded with a family code (\<open>last_discrepancy\<close> 64), a call whose
  walk is aborted at the first bit leaves \<open>last_discrepancy\<close> different from its value
  before the call.
\<close>

theorem search_next_abort_changes_last_discrepancy:
  "fst (search_loop scripted 0 1 0 0 1 family_state
     (onewire_write scripted 0 0xF0 (snd (onewire_reset scripted 0 silent_after_presence)))) \<and>
   last_discrepancy (fst (snd (onewire_search_next scripted example_none family_state 0
      silent_after_presence))) \<noteq> last_discrepancy family_state"
  by (simp add: search_next_cases family_state_simps silent_walk)

theorem search_next_exhausted_witness:
  "last_device_found last_found_state \<and>
   onewire_search_next scripted example_none last_found_state 0 ([], []) =
     (example_none, last_found_state\<lparr>last_discrepancy := 0, last_device_found := False\<rparr>, ([], []))"
  using search_next_exhausted [of last_found_state scripted example_none 0 "([], [])"]
  by (simp add: last_found_state_def)

text \<open>
  C2 as stated fails: after the call that reports exhaustion, the state no longer reads as
  exhausted.
\<close>

theorem search_next_exhausted_not_sticky:
  "last_device_found last_found_state \<and>
   \<not> last_device_found
       (fst (snd (onewire_search_next scripted example_none last_found_state 0 ([], []))))"
  by (simp add: search_next_cases last_found_state_def)

lemma rom_bit_bit: "rom_bit rom q = bit (rom ! (q div 8)) (q mod 8)"
  by (simp add: rom_bit_def and_exp_eq_0_iff_not_bit)

lemma rom_bit_update:
  assumes "p < 64" "length rom = 8"
  shows "rom_bit (rom[p div 8 := if dir then rom ! (p div 8) OR 2 ^ (p mod 8)
                         else rom ! (p div 8) AND NOT (2 ^ (p mod 8))]) q
       = (if q = p then dir else rom_bit rom q)"
proof (cases "q div 8 = p div 8")
  case False
  then show ?thesis by (auto simp: rom_bit_bit)
next
  case True
  have lt: "p div 8 < length rom" using assms by simp
  have qp: "q = p \<longleftrightarrow> q mod 8 = p mod 8"
    using True by (metis div_mult_mod_eq)
  have m: "p mod 8 < 8" "q mod 8 < 8" by simp_all
  show ?thesis
    using m by (auto simp: rom_bit_bit True lt qp bit_simps)
qed

lemma answers_of_Cons:
  "p < 64 \<Longrightarrow> answers_of a p = bit a p # (\<not> bit a p) # answers_of a (Suc p)"
  by (simp add: answers_of_def upt_conv_Cons)

lemma scripted_step_follow:
  fixes s :: onewire_search_t and pin lz :: uint8_t and w :: "bool list world"
    and a :: onewire_addr_t and rest :: "bool list"
  assumes "p < 64" and "snd w = answers_of a p @ rest"
  defines "d \<equiv> (if bit a p then 1 else 0 :: uint8_t)"
  defines "s1 \<equiv> s\<lparr>rom_no := (rom_no s)[p div 8 :=
      if bit a p then rom_no s ! (p div 8) OR 2 ^ (p mod 8)
      else rom_no s ! (p div 8) AND NOT (2 ^ (p mod 8))]\<rparr>"
  defines "w1 \<equiv> onewire_write_bit scripted pin d (snd (onewire_read_bit scripted pin
           (snd (onewire_read_bit scripted pin w))))"
  shows "search_loop scripted pin (of_nat (Suc p)) lz (int (p div 8)) (2 ^ (p mod 8)) s w =
      (if Suc p < 64 then
         search_loop scripted pin (of_nat (Suc (Suc p))) lz (int (Suc p div 8)) (2 ^ (Suc p mod 8)) s1 w1
       else (False, 65, lz, s1, w1))"
    and "snd w1 = answers_of a (Suc p) @ rest"
proof -
  have sw: "snd w = bit a p # (\<not> bit a p) # answers_of a (Suc p) @ rest"
    using assms(2) by (simp add: answers_of_Cons [OF assms(1)])
  have 1: "fst (onewire_read_bit scripted pin w) = (if bit a p then 1 else 0)"
    "snd (snd (onewire_read_bit scripted pin w)) = (\<not> bit a p) # answers_of a (Suc p) @ rest"
    using scripted_read_bit [OF sw, of pin] by simp_all
  have 2: "fst (onewire_read_bit scripted pin (snd (onewire_read_bit scripted pin w)))
       = (if bit a p then 0 else 1)"
    "snd (snd (onewire_read_bit scripted pin (snd (onewire_read_bit scripted pin w))))
       = answers_of a (Suc p) @ rest"
    using scripted_read_bit [OF 1(2), of pin] by simp_all
  show "snd w1 = answers_of a (Suc p) @ rest"
    by (simp add: w1_def scripted_write_bit 2)
  show "search_loop scripted pin (of_nat (Suc p)) lz (int (p div 8)) (2 ^ (p mod 8)) s w =
      (if Suc p < 64 then
         search_loop scripted pin (of_nat (Suc (Suc p))) lz (int (Suc p div 8)) (2 ^ (Suc p mod 8)) s1 w1
       else (False, 65, lz, s1, w1))"
    by (subst search_loop_pos [OF assms(1)])
       (simp add: Let_def 1 2 search_direction_def s1_def w1_def d_def del: of_nat_Suc)
qed

lemma scripted_walk_follow:
  assumes "p < 64" and "length (rom_no s) = 8"
    and "snd w = answers_of a p @ rest"
  shows "\<exists>s' w'.
      search_loop scripted pin (of_nat (Suc p)) lz (int (p div 8)) (2 ^ (p mod 8)) s w
        = (False, 65, lz, s', w')
      \<and> snd w' = rest \<and> length (rom_no s') = 8
      \<and> (\<forall>q. rom_bit (rom_no s') q = (if p \<le> q \<and> q < 64 then bit a q else rom_bit (rom_no s) q))"
  using assms
proof (induction "63 - p" arbitrary: p s w)
  case 0
  then have p: "p = 63" by simp
  define s1 where "s1 = s\<lparr>rom_no := (rom_no s)[p div 8 :=
      if bit a p then rom_no s ! (p div 8) OR 2 ^ (p mod 8)
      else rom_no s ! (p div 8) AND NOT (2 ^ (p mod 8))]\<rparr>"
  define w1 where "w1 = onewire_write_bit scripted pin (if bit a p then 1 else 0)
     (snd (onewire_read_bit scripted pin (snd (onewire_read_bit scripted pin w))))"
  note st = scripted_step_follow(1) [OF "0.prems"(1,3), where pin = pin and lz = lz and s = s,
      folded s1_def w1_def] scripted_step_follow(2) [OF "0.prems"(1,3), where pin = pin, folded w1_def]
  have eq: "search_loop scripted pin (of_nat (Suc p)) lz (int (p div 8)) (2 ^ (p mod 8)) s w
      = (False, 65, lz, s1, w1)"
    using st(1) p by simp
  have b1: "rom_bit (rom_no s1) q = (if p \<le> q \<and> q < 64 then bit a q else rom_bit (rom_no s) q)" for q
    using rom_bit_update [OF "0.prems"(1,2), of "bit a p" q] p by (auto simp: s1_def)
  have "snd w1 = rest" using st(2) p by (simp add: answers_of_def)
  moreover have "length (rom_no s1) = 8" using "0.prems"(2) by (simp add: s1_def)
  ultimately show ?case
    unfolding eq using b1 by blast
next
  case (Suc k)
  then have p: "Suc p < 64" "k = 63 - Suc p" "p < 64" by simp_all
  define s1 where "s1 = s\<lparr>rom_no := (rom_no s)[p div 8 :=
      if bit a p then rom_no s ! (p div 8) OR 2 ^ (p mod 8)
      else rom_no s ! (p div 8) AND NOT (2 ^ (p mod 8))]\<rparr>"
  define w1 where "w1 = onewire_write_bit scripted pin (if bit a p then 1 else 0)
     (snd (onewire_read_bit scripted pin (snd (onewire_read_bit scripted pin w))))"
  note st = scripted_step_follow(1) [OF p(3) Suc.prems(3), where pin = pin and lz = lz and s = s,
      folded s1_def w1_def] scripted_step_follow(2) [OF p(3) Suc.prems(3), where pin = pin, folded w1_def]
  have step: "search_loop scripted pin (of_nat (Suc p)) lz (int (p div 8)) (2 ^ (p mod 8)) s w
      = search_loop scripted pin (of_nat (Suc (Suc p))) lz (int (Suc p div 8)) (2 ^ (Suc p mod 8)) s1 w1"
    using st(1) p(1) by (simp del: of_nat_Suc)
  have l1: "length (rom_no s1) = 8" using Suc.prems(2) by (simp add: s1_def)
  from Suc.hyps(1) [OF p(2) p(1) l1 st(2)]
  obtain s' w' where r:
    "search_loop scripted pin (of_nat (Suc (Suc p))) lz (int (Suc p div 8)) (2 ^ (Suc p mod 8)) s1 w1
        = (False, 65, lz, s', w')"
    "snd w' = rest" "length (rom_no s') = 8"
    "\<forall>q. rom_bit (rom_no s') q = (if Suc p \<le> q \<and> q < 64 then bit a q else rom_bit (rom_no s1) q)"
    by blast
  have b1: "rom_bit (rom_no s1) q = (if q = p then bit a p else rom_bit (rom_no s) q)" for q
    using rom_bit_update [OF p(3) Suc.prems(2), of "bit a p" q] by (simp add: s1_def)
  have "rom_bit (rom_no s') q = (if p \<le> q \<and> q < 64 then bit a q else rom_bit (rom_no s) q)" for q
    using r(4) b1 [of q] p(3) by (auto simp: le_Suc_eq)
  then show ?case
    unfolding step using r(1,2,3) by blast
qed

lemma family_state_rom:
  "rom_no family_state = [0x28, 0, 0, 0, 0, 0, 0, 0]"
  by (simp add: family_state_def onewire_search_prefix_def onewire_search_start_def Let_def upt_rec
      numeral_eq_Suc)

lemma rom_low_byte:
  assumes "\<forall>q. rom_bit rom q = (if q < 64 then bit a q else rom_bit rom0 q)"
  shows "rom ! 0 = ucast (a :: onewire_addr_t)"
proof (rule bit_word_eqI)
  fix n assume n: "n < LENGTH(8)"
  then have "rom_bit rom n = bit a n" using assms by simp
  moreover have "rom_bit rom n = bit (rom ! 0) n" using n by (simp add: rom_bit_bit)
  ultimately show "bit (rom ! 0) n = bit (ucast a :: uint8_t) n"
    using n by (simp add: bit_simps)
qed

lemma scripted_single_device:
  "fst (onewire_reset scripted pin (single_device_line a)) = 1"
  "\<exists>s' w'. search_loop scripted pin 1 0 0 1 family_state
        (onewire_write scripted pin 0xF0 (snd (onewire_reset scripted pin (single_device_line a))))
      = (False, 65, 0, s', w') \<and> rom_no s' ! 0 = ucast a"
proof -
  have r: "fst (onewire_reset scripted pin (single_device_line a)) = 1 \<and>
     snd (snd (onewire_reset scripted pin (single_device_line a))) = answers_of a 0"
    using scripted_reset [of "single_device_line a" False "answers_of a 0" pin]
    by (simp add: single_device_line_def)
  then show "fst (onewire_reset scripted pin (single_device_line a)) = 1" by simp
  let ?w = "onewire_write scripted pin 0xF0 (snd (onewire_reset scripted pin (single_device_line a)))"
  have sw: "snd ?w = answers_of a 0 @ []" using r by (simp add: scripted_write)
  have len: "length (rom_no family_state) = 8" by (simp add: family_state_rom)
  from scripted_walk_follow [of 0 family_state ?w a "[]" pin 0, OF _ len sw]
  obtain s' w' where l: "search_loop scripted pin 1 0 0 1 family_state ?w = (False, 65, 0, s', w')"
    and b: "\<forall>q. rom_bit (rom_no s') q = (if 0 \<le> q \<and> q < 64 then bit a q else rom_bit (rom_no family_state) q)"
    by auto
  have "rom_no s' ! 0 = ucast a"
    by (rule rom_low_byte [of _ _ "rom_no family_state"]) (use b in simp)
  then show "\<exists>s' w'. search_loop scripted pin 1 0 0 1 family_state ?w
      = (False, 65, 0, s', w') \<and> rom_no s' ! 0 = ucast a"
    using l by blast
qed

theorem search_next_failure_resets_witness:
  "\<not> last_device_found family_state \<and>
   last_discrepancy family_state = 64 \<and>
   rom_no family_state ! 0 = 0x28 \<and>
   fst (onewire_reset scripted 1 (single_device_line 0x100)) \<noteq> 0 \<and>
   \<not> fst (search_loop scripted 1 1 0 0 1 family_state
     (onewire_write scripted 1 0xF0 (snd (onewire_reset scripted 1 (single_device_line 0x100))))) \<and>
   rom_no (fst (snd (snd (snd (search_loop scripted 1 1 0 0 1 family_state
     (onewire_write scripted 1 0xF0 (snd (onewire_reset scripted 1 (single_device_line 0x100))))))))) ! 0
     = 0 \<and>
   fst (onewire_search_next scripted example_none family_state 1 (single_device_line 0x100))
     = example_none \<and>
   last_discrepancy (fst (snd (onewire_search_next scripted example_none family_state 1
     (single_device_line 0x100)))) = 0 \<and>
   \<not> last_device_found (fst (snd (onewire_search_next scripted example_none family_state 1
     (single_device_line 0x100)))) \<and>
   rom_no (fst (snd (onewire_search_next scripted example_none family_state 1
     (single_device_line 0x100)))) ! 0 = 0 \<and>
   fst (onewire_reset scripted 1 silent_after_presence) \<noteq> 0 \<and>
   fst (search_loop scripted 1 1 0 0 1 family_state
     (onewire_write scripted 1 0xF0 (snd (onewire_reset scripted 1 silent_after_presence)))) \<and>
   fst (onewire_search_next scripted example_none family_state 1 silent_after_presence)
     = example_none \<and>
   fst (snd (onewire_search_next scripted example_none family_state 1 silent_after_presence))
     = family_state\<lparr>last_discrepancy := 0\<rparr> \<and>
   (ucast (fst (onewire_search_next scripted example_none family_state 1 (single_device_line 0x128)))
      :: uint8_t) = 0x28 \<and>
   last_device_found (fst (snd (onewire_search_next scripted example_none family_state 1
     (single_device_line 0x128))))"
proof -
  let ?z = "single_device_line 0x100"
  let ?wz = "onewire_write scripted 1 0xF0 (snd (onewire_reset scripted 1 ?z))"
  from scripted_single_device [of 1 "0x100"]
  obtain sz wz where z: "fst (onewire_reset scripted 1 ?z) = 1"
    "search_loop scripted 1 1 0 0 1 family_state ?wz = (False, 65, 0, sz, wz)"
    "rom_no sz ! 0 = 0"
    by auto
  have zero: "onewire_search_next scripted example_none family_state 1 ?z
      = (example_none, sz\<lparr>last_discrepancy := 0, last_device_found := False\<rparr>, wz)"
    using search_next_failure_resets [of family_state scripted 1 ?z False 65 0 sz wz
        example_none example_none sz wz] z
    by (simp add: family_state_simps)
  let ?w = "onewire_write scripted 1 0xF0 (snd (onewire_reset scripted 1 silent_after_presence))"
  let ?w' = "snd (onewire_read_bit scripted 1 (snd (onewire_read_bit scripted 1 ?w)))"
  have r: "fst (onewire_reset scripted 1 silent_after_presence) = 1 \<and>
     snd (snd (onewire_reset scripted 1 silent_after_presence)) = [True, True]"
    using scripted_reset [of silent_after_presence False "[True, True]" 1]
    by (simp add: silent_after_presence_def)
  have "snd ?w = True # True # []" using r by (simp add: scripted_write)
  then have l: "search_loop scripted 1 1 0 0 1 family_state ?w = (True, 1, 0, family_state, ?w')"
    by (rule scripted_walk_abort)
  have abort: "onewire_search_next scripted example_none family_state 1 silent_after_presence
      = (example_none, family_state\<lparr>last_discrepancy := 0, last_device_found := False\<rparr>, ?w')"
    using search_next_failure_resets [of family_state scripted 1 silent_after_presence True 1 0
        family_state ?w' example_none example_none family_state ?w'] r l
    by (simp add: family_state_simps)
  have ff: "family_state\<lparr>last_discrepancy := 0, last_device_found := False\<rparr>
      = family_state\<lparr>last_discrepancy := 0\<rparr>"
    using family_state_simps(2) by simp
  let ?d = "single_device_line 0x128"
  from scripted_single_device [of 1 "0x128"]
  obtain sd wd where d: "fst (onewire_reset scripted 1 ?d) = 1"
    "search_loop scripted 1 1 0 0 1 family_state
       (onewire_write scripted 1 0xF0 (snd (onewire_reset scripted 1 ?d))) = (False, 65, 0, sd, wd)"
    "rom_no sd ! 0 = 0x28"
    by auto
  have found: "onewire_search_next scripted example_none family_state 1 ?d
      = (assemble_addr (rom_no sd) 7 0, sd\<lparr>last_discrepancy := 0, last_device_found := True\<rparr>, wd)"
    using d by (simp add: search_next_cases family_state_simps)
  show ?thesis
    using z abort
    by (simp add: zero found ucast_assemble_addr d(3) family_state_simps family_state_rom r l ff)
qed

theorem last_discrepancy_range_witness:
  "list_all (\<lambda>sw. last_discrepancy (fst sw) \<le> 64)
     (run_calls scripted example_none 0 [Search_start, Search_prefix 0x28, Search_next]
        (last_found_state, silent_after_presence)) \<and>
   map (\<lambda>sw. last_discrepancy (fst sw))
     (run_calls scripted example_none 0 [Search_start, Search_prefix 0x28, Search_next]
        (last_found_state, silent_after_presence)) = [0, 64, 0]"
proof -
  have "last_discrepancy (fst (snd (onewire_search_next scripted example_none family_state 0
      silent_after_presence))) = 0"
    by (simp add: search_next_cases family_state_simps silent_walk)
  moreover have "onewire_search_prefix onewire_search_start 0x28 = family_state"
    by (simp add: family_state_def)
  moreover have "last_discrepancy onewire_search_start = 0"
    by (simp add: onewire_search_start_def)
  ultimately show ?thesis
    using last_discrepancy_range [of scripted example_none 0
        "[Search_start, Search_prefix 0x28, Search_next]" "(last_found_state, silent_after_presence)"]
    by (simp add: family_state_simps)
qed

subsection \<open>The order of enumeration\<close>

lemma uniform_branch: "uniform (Suc n) A \<Longrightarrow> uniform n (branch b A)"
  by (auto simp: uniform_def branch_def list_all_iff)

lemma branch_memI: "b # c \<in> set A \<Longrightarrow> c \<in> set (branch b A)"
  by (force simp: branch_def)

lemma branch_memD: "uniform (Suc n) A \<Longrightarrow> c \<in> set (branch b A) \<Longrightarrow> b # c \<in> set A"
proof -
  assume u: "uniform (Suc n) A" and "c \<in> set (branch b A)"
  then obtain d where d: "d \<in> set A" "hd d = b" "c = tl d" by (auto simp: branch_def)
  then have "length d = Suc n" using u by (simp add: uniform_def list_all_iff)
  then have "d = hd d # tl d" by (cases d) simp_all
  then show ?thesis using d by simp
qed

lemma branch_nonempty: "b # c \<in> set A \<Longrightarrow> branch b A \<noteq> []"
  using branch_memI by fastforce

lemma uniform_cases:
  assumes "uniform (Suc n) A" "d \<in> set A"
  obtains b c where "d = b # c" "c \<in> set (branch b A)"
proof -
  have "length d = Suc n" using assms by (simp add: uniform_def list_all_iff)
  then obtain b c where "d = b # c" by (cases d) simp_all
  then show ?thesis using that assms(2) branch_memI by blast
qed

lemma bwalk_ld: "snd (bwalk n k prev A) = ld_of A (fst (bwalk n k prev A))"
proof (induction n arbitrary: k prev A)
  case 0
  show ?case by simp
next
  case (Suc n)
  show ?case
    by (simp add: Let_def Suc.IH) 
qed

lemma uniform_nonempty_branch:
  assumes "uniform (Suc n) A" "A \<noteq> []"
  shows "branch False A \<noteq> [] \<or> branch True A \<noteq> []"
proof -
  obtain d where d: "d \<in> set A" using hd_in_set [OF assms(2)] by blast
  from uniform_cases [OF assms(1) d] obtain b c where "d = b # c" "c \<in> set (branch b A)" .
  then show ?thesis by (cases b) auto
qed

lemma bwalk_Suc:
  "bwalk (Suc n) k prev A =
     (direction k prev A # fst (bwalk n (k - 1) (tl prev) (branch (direction k prev A) A)),
      ld_of A (direction k prev A # fst (bwalk n (k - 1) (tl prev) (branch (direction k prev A) A))))"
proof -
  have "fst (bwalk (Suc n) k prev A) =
      direction k prev A # fst (bwalk n (k - 1) (tl prev) (branch (direction k prev A) A))"
    by (simp add: Let_def direction_def)
  then show ?thesis
    using bwalk_ld [of "Suc n" k prev A] by (simp add: prod_eq_iff)
qed

lemma bwalk_step:
  "bwalk (Suc n) k prev A =
     (let dir = direction k prev A;
          cz = bwalk n (k - 1) (tl prev) (branch dir A)
      in (dir # fst cz,
          if 0 < snd cz then Suc (snd cz)
          else if branch False A \<noteq> [] \<and> branch True A \<noteq> [] \<and> \<not> dir then 1 else 0))"
  by (simp add: Let_def direction_def)

declare bwalk.simps(2) [simp del]

lemma direction_branch:
  assumes "uniform (Suc n) A" "A \<noteq> []"
  shows "branch (direction k prev A) A \<noteq> []"
proof (cases "branch False A \<noteq> [] \<and> branch True A \<noteq> []")
  case True
  then have "branch b A \<noteq> []" for b by (cases b) simp_all
  then show ?thesis .
next
  case False
  then show ?thesis
    using uniform_nonempty_branch [OF assms] by (auto simp: direction_def)
qed

lemma bwalk_mem:
  assumes "uniform n A" "A \<noteq> []"
  shows "fst (bwalk n k prev A) \<in> set A"
  using assms
proof (induction n arbitrary: k prev A)
  case 0
  then obtain d where "d \<in> set A" using hd_in_set by blast
  moreover from this have "d = []" using "0.prems"(1) by (simp add: uniform_def list_all_iff)
  ultimately show ?case by simp
next
  case (Suc n)
  let ?dir = "direction k prev A"
  have "fst (bwalk n (k - 1) (tl prev) (branch ?dir A)) \<in> set (branch ?dir A)"
    by (rule Suc.IH [OF uniform_branch [OF Suc.prems(1)] direction_branch [OF Suc.prems]])
  then show ?case
    by (simp add: bwalk_Suc branch_memD [OF Suc.prems(1)])
qed

lemma bwalk_min:
  assumes "uniform n A" "A \<noteq> []" "d \<in> set A"
  shows "fst (bwalk n 0 prev A) \<le> d"
  using assms
proof (induction n arbitrary: prev A d)
  case 0
  then show ?case by (simp add: uniform_def list_all_iff)
next
  case (Suc n)
  let ?dir = "direction 0 prev A"
  from uniform_cases [OF Suc.prems(1) Suc.prems(3)]
  obtain b c where d: "d = b # c" "c \<in> set (branch b A)" .
  have dir: "?dir = (branch False A = [])"
    using uniform_nonempty_branch [OF Suc.prems(1,2)] by (auto simp: direction_def)
  show ?case
  proof (cases "b = ?dir")
    case True
    have "fst (bwalk n 0 (tl prev) (branch ?dir A)) \<le> c"
      using Suc.IH [OF uniform_branch [OF Suc.prems(1)] direction_branch [OF Suc.prems(1,2)]] d(2) True
      by simp
    then show ?thesis using True by (simp add: bwalk_Suc d(1))
  next
    case False
    have "b" using False d(2) dir by (cases b) auto
    then have "\<not> ?dir" using False by simp
    then show ?thesis using \<open>b\<close> by (simp add: bwalk_Suc d(1))
  qed
qed

lemma ld_of_max:
  assumes "uniform n A" "a \<in> set A"
  shows "ld_of A a = 0 \<longleftrightarrow> (\<forall>d\<in>set A. d \<le> a)"
  using assms
proof (induction n arbitrary: A a)
  case 0
  then have "a = []" "\<forall>d\<in>set A. d = []" by (simp_all add: uniform_def list_all_iff)
  then show ?case by simp
next
  case (Suc n)
  from uniform_cases [OF Suc.prems]
  obtain b c where a: "a = b # c" "c \<in> set (branch b A)" .
  have IH: "ld_of (branch b A) c = 0 \<longleftrightarrow> (\<forall>d\<in>set (branch b A). d \<le> c)"
    by (rule Suc.IH [OF uniform_branch [OF Suc.prems(1)] a(2)])
  have "(\<forall>d\<in>set A. d \<le> a) \<longleftrightarrow>
      (\<forall>d\<in>set (branch b A). d \<le> c) \<and> (b \<or> branch True A = [])"
  proof
    assume all: "\<forall>d\<in>set A. d \<le> a"
    have "d \<le> c" if "d \<in> set (branch b A)" for d
      using all branch_memD [OF Suc.prems(1) that] by (auto simp: a(1))
    moreover have "b" if ne: "branch True A \<noteq> []"
    proof -
      obtain e where "e \<in> set (branch True A)" using hd_in_set [OF ne] by blast
      then have "True # e \<in> set A" by (rule branch_memD [OF Suc.prems(1)])
      then have "True # e \<le> b # c" using all a(1) by auto
      then show b by (cases b) auto
    qed
    ultimately show "(\<forall>d\<in>set (branch b A). d \<le> c) \<and> (b \<or> branch True A = [])" by auto
  next
    assume r: "(\<forall>d\<in>set (branch b A). d \<le> c) \<and> (b \<or> branch True A = [])"
    show "\<forall>d\<in>set A. d \<le> a"
    proof
      fix d assume "d \<in> set A"
      from uniform_cases [OF Suc.prems(1) this]
      obtain b' c' where d: "d = b' # c'" "c' \<in> set (branch b' A)" .
      show "d \<le> a"
      proof (cases "b' = b")
        case True
        then show ?thesis using r d by (auto simp: a(1))
      next
        case False
        then have "\<not> b'" using r d(2) by (cases b') auto
        then show ?thesis using False by (cases b) (auto simp: a(1) d(1))
      qed
    qed
  qed
  then show ?case using IH by (auto simp: a(1) Let_def)
qed

lemma bwalk_succ:
  assumes "uniform n A" "a \<in> set A" "0 < ld_of A a"
  shows "a < fst (bwalk n (ld_of A a) a A)
     \<and> (\<forall>d\<in>set A. a < d \<longrightarrow> fst (bwalk n (ld_of A a) a A) \<le> d)"
  using assms
proof (induction n arbitrary: A a)
  case 0
  then have "a = []" by (simp add: uniform_def list_all_iff)
  then show ?case using "0.prems"(3) by simp
next
  case (Suc n)
  from uniform_cases [OF Suc.prems(1,2)]
  obtain b c where a: "a = b # c" "c \<in> set (branch b A)" .
  have ub: "uniform n (branch b' A)" for b' by (rule uniform_branch [OF Suc.prems(1)])
  have neb: "branch b A \<noteq> []" using a(2) by auto
  let ?rr = "ld_of (branch b A) c"
  show ?case
  proof (cases "0 < ?rr")
    case True
    then have k: "ld_of A a = Suc ?rr" by (simp add: a(1))
    have dir: "direction (Suc ?rr) a A = b"
      using True neb by (cases b) (auto simp: direction_def a(1))
    let ?r = "fst (bwalk n ?rr c (branch b A))"
    have IH: "c < ?r \<and> (\<forall>d\<in>set (branch b A). c < d \<longrightarrow> ?r \<le> d)"
      by (rule Suc.IH [OF ub a(2) True])
    have res: "fst (bwalk (Suc n) (ld_of A a) a A) = b # ?r"
      by (simp add: k bwalk_Suc dir) (simp add: a(1))
    have "b # ?r \<le> d" if d: "d \<in> set A" "a < d" for d
    proof -
      from uniform_cases [OF Suc.prems(1) d(1)]
      obtain b' c' where d': "d = b' # c'" "c' \<in> set (branch b' A)" .
      show ?thesis
      proof (cases "b' = b")
        case True
        then show ?thesis using IH d(2) d' by (auto simp: a(1))
      next
        case False
        then show ?thesis using d(2) by (cases b; cases b') (auto simp: a(1) d'(1))
      qed
    qed
    then show ?thesis unfolding res using IH by (simp add: a(1))
  next
    case False
    then have rr: "?rr = 0" by simp
    have k: "ld_of A a = Suc 0" "\<not> b" "branch True A \<noteq> []"
      using Suc.prems(3) rr by (auto simp: a(1) Let_def split: if_splits)
    have dir: "direction (Suc 0) a A = True"
      using k neb by (simp add: direction_def)
    let ?r = "fst (bwalk n 0 (tl a) (branch True A))"
    have res: "fst (bwalk (Suc n) (ld_of A a) a A) = True # ?r"
      by (simp add: k(1) bwalk_Suc dir)
    have mx: "\<forall>d\<in>set (branch b A). d \<le> c"
      using ld_of_max [OF ub a(2)] rr by simp
    have "True # ?r \<le> d" if d: "d \<in> set A" "a < d" for d
    proof -
      from uniform_cases [OF Suc.prems(1) d(1)]
      obtain b' c' where d': "d = b' # c'" "c' \<in> set (branch b' A)" .
      show ?thesis
      proof (cases b')
        case True
        then have "?r \<le> c'" using bwalk_min [OF ub k(3)] d'(2) by simp
        then show ?thesis using True by (simp add: d'(1))
      next
        case False
        then have "c' \<le> c" using mx d'(2) k(2) by simp
        then show ?thesis using d(2) False k(2) by (simp add: a(1) d'(1))
      qed
    qed
    then show ?thesis unfolding res using k(2) by (simp add: a(1))
  qed
qed

lemma sort_nth_less:
  assumes "distinct A" "i < j" "j < length A"
  shows "sort A ! i < sort A ! j"
proof -
  have "sort A ! i \<le> sort A ! j"
    using assms by (intro sorted_nth_mono) simp_all
  moreover have "sort A ! i \<noteq> sort A ! j"
    using assms nth_eq_iff_index_eq [of "sort A" i j] by simp
  ultimately show ?thesis by simp
qed

lemma sort_nth_mem: "i < length A \<Longrightarrow> sort A ! i \<in> set A"
  using nth_mem [of i "sort A"] by simp

lemma sort_index:
  assumes "d \<in> set A"
  obtains j where "j < length A" "d = sort A ! j"
proof -
  have "d \<in> set (sort A)" using assms by simp
  then obtain j where "j < length (sort A)" "sort A ! j = d"
    unfolding in_set_conv_nth by blast
  then show ?thesis using that by simp
qed

lemma bwalk_first:
  assumes "uniform n A" "distinct A" "A \<noteq> []"
  shows "fst (bwalk n 0 prev A) = sort A ! 0"
proof -
  let ?r = "fst (bwalk n 0 prev A)"
  have len: "0 < length A" using assms(3) by simp
  have "?r \<le> sort A ! 0" by (rule bwalk_min [OF assms(1,3) sort_nth_mem [OF len]])
  moreover have "sort A ! 0 \<le> ?r"
  proof -
    from sort_index [OF bwalk_mem [OF assms(1,3), of 0 prev]]
    obtain j where "j < length A" "?r = sort A ! j" .
    then show ?thesis by (simp add: sorted_nth_mono)
  qed
  ultimately show ?thesis by simp
qed

lemma bwalk_next:
  assumes "uniform n A" "distinct A" "Suc i < length A"
  shows "0 < ld_of A (sort A ! i)"
    and "fst (bwalk n (ld_of A (sort A ! i)) (sort A ! i) A) = sort A ! Suc i"
proof -
  let ?a = "sort A ! i"
  have i: "i < length A" using assms(3) by simp
  have a: "?a \<in> set A" by (rule sort_nth_mem [OF i])
  have lt: "?a < sort A ! Suc i" by (rule sort_nth_less [OF assms(2) _ assms(3)]) simp
  show pos: "0 < ld_of A ?a"
  proof (rule ccontr)
    assume "\<not> 0 < ld_of A ?a"
    then have "\<forall>d\<in>set A. d \<le> ?a" using ld_of_max [OF assms(1) a] by simp
    then have "sort A ! Suc i \<le> ?a" using sort_nth_mem [OF assms(3)] by blast
    then show False using lt by simp
  qed
  let ?r = "fst (bwalk n (ld_of A ?a) ?a A)"
  have ne: "A \<noteq> []" using i by auto
  note s = bwalk_succ [OF assms(1) a pos]
  have "?r \<le> sort A ! Suc i" using s lt sort_nth_mem [OF assms(3)] by blast
  moreover have "sort A ! Suc i \<le> ?r"
  proof -
    from sort_index [OF bwalk_mem [OF assms(1) ne, of "ld_of A ?a" ?a]]
    obtain j where j: "j < length A" "?r = sort A ! j" .
    have "i < j"
    proof (rule ccontr)
      assume "\<not> i < j"
      then have "sort A ! j \<le> ?a" using i by (simp add: sorted_nth_mono)
      then have "\<not> ?a < sort A ! j" by (simp add: not_less)
      then show False using s j(2) by simp
    qed
    then show ?thesis using j by (simp add: sorted_nth_mono Suc_leI)
  qed
  ultimately show "?r = sort A ! Suc i" by simp
qed

lemma ld_of_last:
  assumes "uniform n A" "Suc i = length A"
  shows "ld_of A (sort A ! i) = 0"
proof -
  have i: "i < length A" using assms(2) by simp
  have "d \<le> sort A ! i" if "d \<in> set A" for d
  proof -
    from sort_index [OF that] obtain j where "j < length A" "d = sort A ! j" .
    then show ?thesis using assms(2) by (simp add: sorted_nth_mono)
  qed
  then show ?thesis using ld_of_max [OF assms(1) sort_nth_mem [OF i]] by simp
qed

subsection \<open>The driver on the bus with devices\<close>

lemmas bus_defs = onewire_bus_def bus_react_def bus_level_def falling_edge_def rising_edge_def
  pulled_low_def settled_def bus_ok_def

lemma bus_write_bit:
  assumes "bus_ok D ph w"
  shows "bus_ok D (slot_end D (v AND 1 \<noteq> 0) ph) (onewire_write_bit onewire_bus pin v w)"
  using assms
  by (cases "sends_low ph") (simp_all add: write_bit_world write_slot_def bus_defs)

lemma bus_read_bit:
  assumes "bus_ok D ph w"
  shows "fst (onewire_read_bit onewire_bus pin w) = (if sends_low ph then 0 else 1)"
    and "bus_ok D (slot_end D True ph) (snd (onewire_read_bit onewire_bus pin w))"
  using assms
  by (cases "sends_low ph";
      simp add: read_bit_world read_slot_open_def read_slot_close_def Let_def bus_defs)+

lemma reset_wait_first:
  assumes "level P pin (react P (Delay_us 2) (snd w))"
  shows "reset_wait P pin 125 w =
    (True, fst w @ [Delay_us 2, Gpio_read pin True],
     react P (Gpio_read pin True) (react P (Delay_us 2) (snd w)))"
  using assms by (subst reset_wait.simps) (simp add: platform_defs emit_def Let_def)

lemma onewire_reset_first:
  assumes "level P pin (replay P [Gpio_enable pin GPIO_OUT_OPEN_DRAIN, Gpio_write pin True, Delay_us 2] (snd w))"
  shows "onewire_reset P pin w =
    (let b = replay P [Gpio_enable pin GPIO_OUT_OPEN_DRAIN, Gpio_write pin True, Delay_us 2,
                 Gpio_read pin True, Gpio_write pin False, Delay_us 480, Enter_critical,
                 Gpio_write pin True, Delay_us 70] (snd w);
         v = level P pin b
     in (if v then 0 else 1,
         fst w @ [Gpio_enable pin GPIO_OUT_OPEN_DRAIN, Gpio_write pin True, Delay_us 2,
                 Gpio_read pin True, Gpio_write pin False, Delay_us 480, Enter_critical,
                 Gpio_write pin True, Delay_us 70, Gpio_read pin v, Exit_critical, Delay_us 410],
         replay P [Gpio_read pin v, Exit_critical, Delay_us 410] b))"
proof -
  let ?w1 = "gpio_write P pin True (gpio_enable P pin GPIO_OUT_OPEN_DRAIN w)"
  have "level P pin (react P (Delay_us 2) (snd ?w1))"
    using assms by (simp add: platform_defs emit_def)
  from reset_wait_first [OF this] show ?thesis
    by (simp add: onewire_reset_def Let_def) (simp add: platform_defs emit_def Let_def)
qed

lemma bus_reset:
  assumes "bus_ok D ph w"
  shows "fst (onewire_reset onewire_bus pin w) = (if D = [] then 0 else 1)"
    and "bus_ok D (Command 0 0) (snd (onewire_reset onewire_bus pin w))"
proof -
  obtain f r a where b: "snd w = \<lparr>devices = D, phase = ph, driven_low = False, since_fall = f,
      since_rise = r, answer = a\<rparr>"
    using assms by (cases "snd w") (simp add: bus_ok_def settled_def)
  have st: "case a of Quiet \<Rightarrow> True | Presence_pulse \<Rightarrow> 150 \<le> r | Bit_low \<Rightarrow> 30 \<le> f"
    using assms by (cases a) (simp_all add: bus_ok_def settled_def b)
  have idle: "level onewire_bus pin (replay onewire_bus
      [Gpio_enable pin GPIO_OUT_OPEN_DRAIN, Gpio_write pin True, Delay_us 2] (snd w))"
    using st by (cases a) (simp_all add: b bus_defs)
  have r: "replay onewire_bus [Gpio_enable pin GPIO_OUT_OPEN_DRAIN, Gpio_write pin True, Delay_us 2,
                 Gpio_read pin True, Gpio_write pin False, Delay_us 480, Enter_critical,
                 Gpio_write pin True, Delay_us 70] (snd w)
     = \<lparr>devices = D, phase = Command 0 0, driven_low = False, since_fall = 550,
        since_rise = 70, answer = (if D = [] then Quiet else Presence_pulse)\<rparr>"
    by (simp add: b onewire_bus_def bus_react_def falling_edge_def rising_edge_def)
  show "fst (onewire_reset onewire_bus pin w) = (if D = [] then 0 else 1)"
    unfolding onewire_reset_first [OF idle] Let_def r
    by (simp add: onewire_bus_def bus_level_def pulled_low_def)
  show "bus_ok D (Command 0 0) (snd (onewire_reset onewire_bus pin w))"
    unfolding onewire_reset_first [OF idle] Let_def r
    by (simp add: bus_defs)
qed

lemma slot_end_search_command:
  "fold (\<lambda>j. slot_end D (bit (0xF0 :: uint8_t) j)) [0..<8] (Command 0 0) = Searching D 0 Send_bit"
  by (simp add: upt_rec slot_end_def)

lemma bus_write_fold:
  assumes "bus_ok D ph w"
  shows "bus_ok D (fold (\<lambda>j. slot_end D (bit (v :: uint8_t) j)) js ph)
     (fold (\<lambda>j. onewire_write_bit onewire_bus pin (if bit v j then 1 else 0)) js w)"
  using assms
proof (induction js arbitrary: ph w)
  case Nil
  then show ?case by simp
next
  case (Cons j js)
  have "bus_ok D (slot_end D (bit v j) ph)
      (onewire_write_bit onewire_bus pin (if bit v j then 1 else 0) w)"
    using bus_write_bit [OF Cons.prems, of "if bit v j then 1 else 0" pin]
    by (cases "bit v j") simp_all
  then show ?case using Cons.IH by simp
qed

lemma bus_search_command:
  assumes "bus_ok D (Command 0 0) w"
  shows "bus_ok D (Searching D 0 Send_bit) (onewire_write onewire_bus pin 0xF0 w)"
  using bus_write_fold [OF assms, where v = "0xF0" and js = "[0..<8]" and pin = pin]
  by (simp only: onewire_write_bits slot_end_search_command)

lemma bits_from_Cons: "p < 64 \<Longrightarrow> bits_from p a = bit a p # bits_from (Suc p) a"
  by (simp add: bits_from_def upt_conv_Cons)

lemma branch_bits_from:
  assumes "p < 64"
  shows "branch b (map (bits_from p) A) = map (bits_from (Suc p)) (filter (\<lambda>a. bit a p = b) A)"
  by (induction A) (auto simp: branch_def bits_from_Cons [OF assms])

lemma branch_bits_from_empty:
  assumes "p < 64"
  shows "(branch b (map (bits_from p) A) \<noteq> []) = list_ex (\<lambda>a. bit a p = b) A"
  unfolding branch_bits_from [OF assms]
  by (auto simp: filter_empty_conv list_ex_iff)

lemma of_nat_Suc_less_iff:
  assumes "p < 64" "L \<le> 64"
  shows "((of_nat (Suc p) :: uint8_t) < of_nat L) = (Suc p < L)"
    and "((of_nat (Suc p) :: uint8_t) = of_nat L) = (Suc p = L)"
proof -
  have u: "unat (of_nat (Suc p) :: uint8_t) = Suc p" by (rule unat_of_nat_Suc [OF assms(1)])
  have v: "unat (of_nat L :: uint8_t) = L" using assms(2) by (simp only: unat_of_nat) simp
  show "((of_nat (Suc p) :: uint8_t) < of_nat L) = (Suc p < L)"
    by (simp only: word_less_nat_alt u v)
  show "((of_nat (Suc p) :: uint8_t) = of_nat L) = (Suc p = L)"
    using u v by (metis)
qed

lemma search_direction_bus:
  fixes rb :: bool and rest :: "bool list" and A :: "onewire_addr_t list"
  assumes "p < 64" "L \<le> 64" "A \<noteq> []"
  defines "has0 \<equiv> list_ex (\<lambda>a. \<not> bit a p) A" and "has1 \<equiv> list_ex (\<lambda>a. bit a p) A"
  defines "dir \<equiv> direction (L - p) (rb # rest) (map (bits_from p) A)"
  shows "search_direction (if has0 then 0 else 1) (if has1 then 0 else 1) (of_nat (Suc p))
           (of_nat L) rb = (if dir then 1 else 0)"
    and "((if has0 then 0 else 1 :: uint8_t) = (if has1 then 0 else 1)) = (has0 \<and> has1)"
    and "\<not> ((if has0 then 0 else 1 :: uint8_t) = 1 \<and> (if has1 then 0 else 1 :: uint8_t) = 1)"
proof -
  obtain a where "a \<in> set A" using hd_in_set [OF assms(3)] by blast
  then have some: "has0 \<or> has1" by (cases "bit a p") (auto simp: has0_def has1_def list_ex_iff)
  have b0: "(branch False (map (bits_from p) A) \<noteq> []) = has0"
    using branch_bits_from_empty [OF assms(1), of False A] by (simp add: has0_def)
  have b1: "(branch True (map (bits_from p) A) \<noteq> []) = has1"
    using branch_bits_from_empty [OF assms(1), of True A] by (simp add: has1_def)
  have k: "(1 < L - p) = (Suc p < L)" "(L - p = 1) = (Suc p = L)" by auto
  show "search_direction (if has0 then 0 else 1) (if has1 then 0 else 1) (of_nat (Suc p))
           (of_nat L) rb = (if dir then 1 else 0)"
    using some
    unfolding dir_def direction_def b0 b1 k search_direction_def of_nat_Suc_less_iff [OF assms(1,2)]
    by auto
  show "((if has0 then 0 else 1 :: uint8_t) = (if has1 then 0 else 1)) = (has0 \<and> has1)"
    using some by auto
  show "\<not> ((if has0 then 0 else 1 :: uint8_t) = 1 \<and> (if has1 then 0 else 1 :: uint8_t) = 1)"
    using some by auto
qed

lemma uniform_bits_from: "uniform (64 - p) (map (bits_from p) A)"
  by (simp add: uniform_def bits_from_def list_all_iff)

lemma bus_search_step:
  fixes s :: onewire_search_t and pin lz :: uint8_t and w :: "bus_state world"
    and A D :: "onewire_addr_t list"
  assumes p: "p < 64" and ok: "bus_ok D (Searching A p Send_bit) w" and ne: "A \<noteq> []"
    and ld: "last_discrepancy s = of_nat L" "L \<le> 64"
  defines "dir \<equiv> direction (L - p) (map (rom_bit (rom_no s)) [p..<64]) (map (bits_from p) A)"
  defines "flag \<equiv> list_ex (\<lambda>a. \<not> bit a p) A \<and> list_ex (\<lambda>a. bit a p) A \<and> \<not> dir"
  defines "s1 \<equiv> s\<lparr>rom_no := (rom_no s)[p div 8 :=
      if dir then rom_no s ! (p div 8) OR 2 ^ (p mod 8)
      else rom_no s ! (p div 8) AND NOT (2 ^ (p mod 8))]\<rparr>"
  defines "w1 \<equiv> onewire_write_bit onewire_bus pin (if dir then 1 else 0)
      (snd (onewire_read_bit onewire_bus pin (snd (onewire_read_bit onewire_bus pin w))))"
  shows "search_loop onewire_bus pin (of_nat (Suc p)) lz (int (p div 8)) (2 ^ (p mod 8)) s w =
      (if Suc p < 64 then
         search_loop onewire_bus pin (of_nat (Suc (Suc p))) (if flag then of_nat (Suc p) else lz)
           (int (Suc p div 8)) (2 ^ (Suc p mod 8)) s1 w1
       else (False, 65, if flag then of_nat (Suc p) else lz, s1, w1))"
    and "bus_ok D (if p < 63 then Searching (filter (\<lambda>a. bit a p = dir) A) (Suc p) Send_bit else Idle) w1"
proof -
  let ?has0 = "list_ex (\<lambda>a. \<not> bit a p) A" and ?has1 = "list_ex (\<lambda>a. bit a p) A"
  let ?r1 = "onewire_read_bit onewire_bus pin w"
  let ?r2 = "onewire_read_bit onewire_bus pin (snd ?r1)"
  note b1 = bus_read_bit [OF ok, of pin]
  have r1: "fst ?r1 = (if ?has0 then 0 else 1)"
    and ok1: "bus_ok D (Searching A p Send_complement) (snd ?r1)"
    using b1 by (simp_all add: sends_low_def slot_end_def)
  note b2 = bus_read_bit [OF ok1, of pin]
  have r2: "fst ?r2 = (if ?has1 then 0 else 1)"
    and ok2: "bus_ok D (Searching A p Receive_direction) (snd ?r2)"
    using b2 by (simp_all add: sends_low_def slot_end_def)
  have prev: "map (rom_bit (rom_no s)) [p..<64]
      = (rom_no s ! (p div 8) AND 2 ^ (p mod 8) \<noteq> 0) # map (rom_bit (rom_no s)) [Suc p..<64]"
    using p by (simp add: upt_conv_Cons rom_bit_def)
  note sd = search_direction_bus(1) [OF p ld(2) ne,
      where rb = "rom_no s ! (p div 8) AND 2 ^ (p mod 8) \<noteq> 0"
        and rest = "map (rom_bit (rom_no s)) [Suc p..<64]",
      folded prev, folded dir_def]
    search_direction_bus(2,3) [OF p ld(2) ne]
  have d1: "((if dir then 1 else 0 :: uint8_t) = 1) = dir" "((if dir then 1 else 0 :: uint8_t) = 0) = (\<not> dir)"
    "((if dir then 1 else 0 :: uint8_t) AND 1 \<noteq> 0) = dir"
    by simp_all
  show "search_loop onewire_bus pin (of_nat (Suc p)) lz (int (p div 8)) (2 ^ (p mod 8)) s w =
      (if Suc p < 64 then
         search_loop onewire_bus pin (of_nat (Suc (Suc p))) (if flag then of_nat (Suc p) else lz)
           (int (Suc p div 8)) (2 ^ (Suc p mod 8)) s1 w1
       else (False, 65, if flag then of_nat (Suc p) else lz, s1, w1))"
    apply (subst search_loop_pos [OF p])
    apply (simp only: Let_def r1 r2 ld(1) sd d1 if_False)
    apply (simp only: flag_def s1_def w1_def conj_assoc)
    done
  show "bus_ok D (if p < 63 then Searching (filter (\<lambda>a. bit a p = dir) A) (Suc p) Send_bit else Idle) w1"
    using bus_write_bit [OF ok2, of "if dir then 1 else 0" pin]
    by (simp add: w1_def d1 slot_end_def)
qed

lemma bus_walk:
  fixes s :: onewire_search_t and pin lz :: uint8_t and w :: "bus_state world"
    and A D :: "onewire_addr_t list"
  assumes "p < 64" and "bus_ok D (Searching A p Send_bit) w" and "A \<noteq> []"
    and "length (rom_no s) = 8" and "last_discrepancy s = of_nat L" and "L \<le> 64"
  shows "\<exists>s' w'.
      search_loop onewire_bus pin (of_nat (Suc p)) lz (int (p div 8)) (2 ^ (p mod 8)) s w
        = (False, 65,
           (if 0 < snd (bwalk (64 - p) (L - p) (map (rom_bit (rom_no s)) [p..<64]) (map (bits_from p) A))
            then of_nat (p + snd (bwalk (64 - p) (L - p) (map (rom_bit (rom_no s)) [p..<64])
                                     (map (bits_from p) A)))
            else lz), s', w')
      \<and> bus_ok D Idle w' \<and> length (rom_no s') = 8
      \<and> last_discrepancy s' = last_discrepancy s
      \<and> last_device_found s' = last_device_found s
      \<and> (\<forall>q. rom_bit (rom_no s') q =
            (if p \<le> q \<and> q < 64
             then fst (bwalk (64 - p) (L - p) (map (rom_bit (rom_no s)) [p..<64]) (map (bits_from p) A))
                    ! (q - p)
             else rom_bit (rom_no s) q))"
  using assms
proof (induction "63 - p" arbitrary: p A s w lz)
  case 0
  then have p: "p = 63" by simp
  let ?A' = "map (bits_from p) A"
  let ?prev = "map (rom_bit (rom_no s)) [p..<64]"
  define dir where "dir = direction (L - p) ?prev ?A'"
  define flag where "flag = (list_ex (\<lambda>a. \<not> bit a p) A \<and> list_ex (\<lambda>a. bit a p) A \<and> \<not> dir)"
  define s1 where "s1 = s\<lparr>rom_no := (rom_no s)[p div 8 :=
      if dir then rom_no s ! (p div 8) OR 2 ^ (p mod 8)
      else rom_no s ! (p div 8) AND NOT (2 ^ (p mod 8))]\<rparr>"
  define w1 where "w1 = onewire_write_bit onewire_bus pin (if dir then 1 else 0)
      (snd (onewire_read_bit onewire_bus pin (snd (onewire_read_bit onewire_bus pin w))))"
  note st = bus_search_step(1) [OF "0.prems"(1,2,3,5,6), where pin = pin and lz = lz,
      folded dir_def, folded flag_def s1_def w1_def]
    bus_search_step(2) [OF "0.prems"(1,2,3,5,6), where pin = pin,
      folded dir_def, folded w1_def]
  have eq: "search_loop onewire_bus pin (of_nat (Suc p)) lz (int (p div 8)) (2 ^ (p mod 8)) s w
      = (False, 65, if flag then of_nat (Suc p) else lz, s1, w1)"
    using st(1) p by simp
  have ok: "bus_ok D Idle w1" using st(2) p by simp
  have b0: "(branch False ?A' \<noteq> []) = list_ex (\<lambda>a. \<not> bit a p) A"
    using branch_bits_from_empty [OF "0.prems"(1), of False A] by simp
  have b1: "(branch True ?A' \<noteq> []) = list_ex (\<lambda>a. bit a p) A"
    using branch_bits_from_empty [OF "0.prems"(1), of True A] by simp
  have cz: "bwalk (64 - p) (L - p) ?prev ?A' = ([dir], if flag then 1 else 0)"
    using bwalk_step [of 0 "L - p" ?prev ?A']
    by (simp add: p [symmetric] Let_def dir_def [symmetric] b0 b1 flag_def [symmetric]
        flip: One_nat_def) (simp add: p)
  have rb: "rom_bit (rom_no s1) q = (if q = p then dir else rom_bit (rom_no s) q)" for q
    using rom_bit_update [OF "0.prems"(1,4), of dir q] by (simp add: s1_def)
  have bits: "rom_bit (rom_no s1) q =
      (if p \<le> q \<and> q < 64 then [dir] ! (q - p) else rom_bit (rom_no s) q)"
    for q using rb [of q] p by auto
  have f: "length (rom_no s1) = 8" "last_discrepancy s1 = last_discrepancy s"
    "last_device_found s1 = last_device_found s"
    using "0.prems"(4) by (simp_all add: s1_def)
  have lzq: "(if 0 < (if flag then 1 else 0 :: nat) then of_nat (p + (if flag then 1 else 0)) else lz)
      = (if flag then of_nat (Suc p) else lz)" by simp
  show ?case
    unfolding eq cz fst_conv snd_conv lzq
    by (intro exI [of _ s1] exI [of _ w1] conjI allI refl ok f bits)
next
  case (Suc k)
  then have p: "Suc p < 64" "k = 63 - Suc p" "p < 64" "p < 63" by simp_all
  let ?A' = "map (bits_from p) A"
  let ?prev = "map (rom_bit (rom_no s)) [p..<64]"
  define dir where "dir = direction (L - p) ?prev ?A'"
  define flag where "flag = (list_ex (\<lambda>a. \<not> bit a p) A \<and> list_ex (\<lambda>a. bit a p) A \<and> \<not> dir)"
  define s1 where "s1 = s\<lparr>rom_no := (rom_no s)[p div 8 :=
      if dir then rom_no s ! (p div 8) OR 2 ^ (p mod 8)
      else rom_no s ! (p div 8) AND NOT (2 ^ (p mod 8))]\<rparr>"
  define w1 where "w1 = onewire_write_bit onewire_bus pin (if dir then 1 else 0)
      (snd (onewire_read_bit onewire_bus pin (snd (onewire_read_bit onewire_bus pin w))))"
  define A1 where "A1 = filter (\<lambda>a. bit a p = dir) A"
  define lz1 where "lz1 = (if flag then of_nat (Suc p) else lz)"
  note st = bus_search_step(1) [OF p(3) Suc.prems(2,3,5,6), where pin = pin and lz = lz,
      folded dir_def, folded flag_def s1_def w1_def, folded lz1_def]
    bus_search_step(2) [OF p(3) Suc.prems(2,3,5,6), where pin = pin,
      folded dir_def, folded w1_def A1_def]
  have step: "search_loop onewire_bus pin (of_nat (Suc p)) lz (int (p div 8)) (2 ^ (p mod 8)) s w
      = search_loop onewire_bus pin (of_nat (Suc (Suc p))) lz1 (int (Suc p div 8)) (2 ^ (Suc p mod 8)) s1 w1"
    using st(1) p(1) by (simp only: if_True)
  have ok: "bus_ok D (Searching A1 (Suc p) Send_bit) w1" using st(2) p(4) by (simp only: if_True)
  have b0: "(branch False ?A' \<noteq> []) = list_ex (\<lambda>a. \<not> bit a p) A"
    using branch_bits_from_empty [OF p(3), of False A] by simp
  have b1: "(branch True ?A' \<noteq> []) = list_ex (\<lambda>a. bit a p) A"
    using branch_bits_from_empty [OF p(3), of True A] by simp
  have br: "branch dir ?A' = map (bits_from (Suc p)) A1"
    by (simp add: branch_bits_from [OF p(3)] A1_def)
  have "64 - p = Suc (63 - p)" using p(3) by simp
  then have un: "uniform (Suc (63 - p)) ?A'"
    using uniform_bits_from [of p A] by simp
  have ne1: "A1 \<noteq> []"
    using direction_branch [OF un, of "L - p" ?prev] Suc.prems(3) by (simp add: dir_def [symmetric] br)
  have rb: "rom_bit (rom_no s1) q = (if q = p then dir else rom_bit (rom_no s) q)" for q
    using rom_bit_update [OF p(3) Suc.prems(4), of dir q] by (simp add: s1_def)
  have prev1: "map (rom_bit (rom_no s1)) [Suc p..<64] = tl ?prev"
    using p(3) by (simp add: upt_conv_Cons rb)
  have s1: "length (rom_no s1) = 8" "last_discrepancy s1 = of_nat L"
    "last_discrepancy s1 = last_discrepancy s" "last_device_found s1 = last_device_found s"
    using Suc.prems(4,5) by (simp_all add: s1_def)
  define cz1 where "cz1 = bwalk (64 - Suc p) (L - Suc p) (map (rom_bit (rom_no s1)) [Suc p..<64])
      (map (bits_from (Suc p)) A1)"
  from Suc.hyps(1) [OF p(2) p(1) ok ne1 s1(1,2) Suc.prems(6), of lz1, folded cz1_def]
  obtain s' w' where r:
    "search_loop onewire_bus pin (of_nat (Suc (Suc p))) lz1 (int (Suc p div 8)) (2 ^ (Suc p mod 8)) s1 w1
        = (False, 65, (if 0 < snd cz1 then of_nat (Suc p + snd cz1) else lz1), s', w')"
    "bus_ok D Idle w'" "length (rom_no s') = 8"
    "last_discrepancy s' = last_discrepancy s1" "last_device_found s' = last_device_found s1"
    "\<forall>q. rom_bit (rom_no s') q =
        (if Suc p \<le> q \<and> q < 64 then fst cz1 ! (q - Suc p) else rom_bit (rom_no s1) q)"
    by blast
  have n: "64 - p = Suc (64 - Suc p)" "L - p - 1 = L - Suc p" using p(3) by simp_all
  have c1: "bwalk (63 - p) (L - Suc p) (map (rom_bit (rom_no s1)) [Suc p..<64])
      (map (bits_from (Suc p)) A1) = cz1"
    by (simp add: cz1_def)
  have cz: "bwalk (64 - p) (L - p) ?prev ?A' =
      (dir # fst cz1, if 0 < snd cz1 then Suc (snd cz1) else if flag then 1 else 0)"
    unfolding n(1) bwalk_step
    by (simp add: Let_def dir_def [symmetric] br prev1 [symmetric] n(2) c1
        b0 b1 flag_def [symmetric])
  have lzf: "(if 0 < snd cz1 then of_nat (Suc p + snd cz1) else lz1)
      = (if 0 < (if 0 < snd cz1 then Suc (snd cz1) else if flag then 1 else 0)
         then of_nat (p + (if 0 < snd cz1 then Suc (snd cz1) else if flag then 1 else 0)) else lz)"
    by (simp add: lz1_def)
  have bits: "rom_bit (rom_no s') q =
      (if p \<le> q \<and> q < 64 then (dir # fst cz1) ! (q - p) else rom_bit (rom_no s) q)" for q
  proof (cases "Suc p \<le> q \<and> q < 64")
    case True
    then have "q - p = Suc (q - Suc p)" by arith
    then show ?thesis using r(6) True by simp
  next
    case False
    then show ?thesis using r(6) rb [of q] p(3) by (auto simp: not_less_eq_eq)
  qed
  have f: "last_discrepancy s' = last_discrepancy s" "last_device_found s' = last_device_found s"
    using r(4,5) s1(3,4) by simp_all
  show ?case
    unfolding step r(1) cz fst_conv snd_conv lzf
    by (intro exI [of _ s'] exI [of _ w'] conjI allI refl r(2,3) f bits)
qed

lemma map_insort_key: "map f (insort_key f x xs) = insort (f x) (map f xs)"
  by (induction xs) simp_all

lemma map_sort_key: "map f (sort_key f xs) = sort (map f xs)"
  by (induction xs) (simp_all add: map_insort_key)

lemma bwalk_snd_le: "snd (bwalk n k prev A) \<le> n"
proof (induction n arbitrary: k prev A)
  case 0
  show ?case by simp
next
  case (Suc n)
  show ?case
    using Suc.IH [of "k - 1" "tl prev" "branch (direction k prev A) A"]
    by (simp add: bwalk_step Let_def)
qed

lemma bits_from_inj: "bits_from 0 a = bits_from 0 b \<Longrightarrow> a = b"
proof (rule bit_word_eqI)
  fix n assume eq: "bits_from 0 a = bits_from 0 b" and n: "n < LENGTH(64)"
  have "bits_from 0 a ! n = bit a n" "bits_from 0 b ! n = bit b n"
    using n by (simp_all add: bits_from_def)
  then show "bit a n = bit b n" using eq by simp
qed

lemma bit_uint8_beyond: "8 \<le> n \<Longrightarrow> bit (x :: uint8_t) n = False"
  using bit_imp_le_length [of x n] by auto

lemma assemble_addr_bit:
  assumes "q < 64"
  shows "bit (assemble_addr rom 7 0) q = rom_bit rom q"
proof -
  define k where "k = q div 8"
  define j where "j = q mod 8"
  have q: "q = 8 * k + j" and j: "j < 8" and k: "k < 8"
    using assms by (simp_all add: k_def j_def)
  have r: "rom_bit rom q = bit (rom ! k) j"
    by (simp add: rom_bit_bit k_def j_def)
  from k consider "k = 0" | "k = 1" | "k = 2" | "k = 3" | "k = 4" | "k = 5" | "k = 6" | "k = 7"
    by arith
  then have "bit (assemble_addr rom 7 0) (8 * k + j) = bit (rom ! k) j"
    using j unfolding assemble_addr_7 by cases (simp_all add: bit_simps bit_uint8_beyond)
  then show ?thesis using r q by simp
qed

lemma assemble_addr_eq:
  assumes "\<forall>q<64. rom_bit rom q = bit a q"
  shows "assemble_addr rom 7 0 = a"
proof (rule bit_word_eqI)
  fix n assume "n < LENGTH(64)"
  then show "bit (assemble_addr rom 7 0) n = bit a n"
    using assms by (simp add: assemble_addr_bit)
qed

lemma bus_search_next:
  fixes s :: onewire_search_t and w :: "bus_state world" and D :: "onewire_addr_t list"
  assumes ok: "bus_ok D ph w" and ne: "D \<noteq> []" and ldf: "\<not> last_device_found s"
    and len: "length (rom_no s) = 8" and ld: "last_discrepancy s = of_nat L" "L \<le> 64"
  defines "cz \<equiv> bwalk 64 L (map (rom_bit (rom_no s)) [0..<64]) (map (bits_from 0) D)"
  shows "\<exists>r s1 w'. r \<in> set D \<and> bits_from 0 r = fst cz
      \<and> (\<forall>q<64. rom_bit (rom_no s1) q = bit r q) \<and> length (rom_no s1) = 8
      \<and> bus_ok D Idle w'
      \<and> onewire_search_next onewire_bus NONE s pin w =
          (if (ucast r :: uint8_t) = 0
           then (NONE, s1\<lparr>last_discrepancy := 0, last_device_found := False\<rparr>, w')
           else (r, s1\<lparr>last_discrepancy := of_nat (snd cz), last_device_found := (snd cz = 0)\<rparr>, w'))"
proof -
  let ?w1 = "snd (onewire_reset onewire_bus pin w)"
  let ?w2 = "onewire_write onewire_bus pin 0xF0 ?w1"
  have r: "fst (onewire_reset onewire_bus pin w) = 1" "bus_ok D (Command 0 0) ?w1"
    using bus_reset [OF ok, of pin] ne by simp_all
  have ok2: "bus_ok D (Searching D 0 Send_bit) ?w2"
    by (rule bus_search_command [OF r(2)])
  have "\<exists>s' w'. search_loop onewire_bus pin 1 0 0 1 s ?w2
        = (False, 65, (if 0 < snd cz then of_nat (snd cz) else 0), s', w')
      \<and> bus_ok D Idle w' \<and> length (rom_no s') = 8
      \<and> (\<forall>q. rom_bit (rom_no s') q = (if q < 64 then fst cz ! q else rom_bit (rom_no s) q))"
    using bus_walk [of 0 D D ?w2 s L pin 0, OF _ ok2 ne len ld] unfolding cz_def
    apply (simp cong: if_cong split del: if_split)
    apply (elim exE conjE)
    apply (intro exI conjI)
       apply assumption+
    done
  then obtain s1 w' where l: "search_loop onewire_bus pin 1 0 0 1 s ?w2
        = (False, 65, (if 0 < snd cz then of_nat (snd cz) else 0), s1, w')"
    and ok': "bus_ok D Idle w'" and len1: "length (rom_no s1) = 8"
    and bits: "\<forall>q. rom_bit (rom_no s1) q = (if q < 64 then fst cz ! q else rom_bit (rom_no s) q)"
    by auto
  have "fst cz \<in> set (map (bits_from 0) D)"
    unfolding cz_def using uniform_bits_from [of 0 D] ne by (intro bwalk_mem) simp_all
  then obtain r where rD: "r \<in> set D" and rb: "bits_from 0 r = fst cz" by auto
  have rbit: "fst cz ! q = bit r q" if "q < 64" for q
    using that by (simp add: rb [symmetric] bits_from_def)
  have b1: "\<forall>q<64. rom_bit (rom_no s1) q = bit r q"
    using bits rbit by simp
  have low: "rom_no s1 ! 0 = ucast r"
    by (rule rom_low_byte [of _ _ "rom_no s"]) (use bits rbit in simp)
  have addr: "assemble_addr (rom_no s1) 7 0 = r"
    by (rule assemble_addr_eq [OF b1])
  have le: "snd cz \<le> 64" unfolding cz_def by (rule bwalk_snd_le)
  have lz: "(if 0 < snd cz then of_nat (snd cz) else 0) = (of_nat (snd cz) :: uint8_t)" by simp
  have z: "((of_nat (snd cz) :: uint8_t) = 0) = (snd cz = 0)"
    using le by (simp add: word_of_nat_eq_0_iff) (auto dest: dvd_imp_le)
  have "onewire_search_next onewire_bus NONE s pin w =
          (if (ucast r :: uint8_t) = 0
           then (NONE, s1\<lparr>last_discrepancy := 0, last_device_found := False\<rparr>, w')
           else (r, s1\<lparr>last_discrepancy := of_nat (snd cz), last_device_found := (snd cz = 0)\<rparr>, w'))"
    using ldf r(1) by (simp add: search_next_cases l lz low addr z)
  then show ?thesis using rD rb b1 len1 ok' by blast
qed

subsection \<open>Enumeration of the devices\<close>

lemma bus_seq:
  fixes D :: "onewire_addr_t list" and s :: onewire_search_t and w :: "bus_state world"
  defines "A \<equiv> map (bits_from 0) D"
  assumes dist: "distinct D" and fam: "\<forall>d\<in>set D. (ucast d :: uint8_t) \<noteq> 0"
    and k: "k = length D - i" and i: "i \<le> length D" and ok: "bus_ok D ph w"
    and inv: "i < length D \<Longrightarrow> \<not> last_device_found s \<and> length (rom_no s) = 8 \<and>
        (\<exists>L\<le>64. last_discrepancy s = of_nat L \<and>
           fst (bwalk 64 L (map (rom_bit (rom_no s)) [0..<64]) A) = sort A ! i)"
    and fin: "i = length D \<Longrightarrow> last_device_found s \<or> D = []"
  shows "search_seq onewire_bus NONE pin (Suc (length D - i)) s w
       = drop i (sort_key (bits_from 0) D) @ [NONE]"
  using k i ok inv fin
proof (induction k arbitrary: i s w ph)
  case 0
  then have i: "i = length D" by simp
  have "fst (onewire_search_next onewire_bus NONE s pin w) = NONE"
    using "0.prems"(5) [OF i] bus_reset(1) [OF "0.prems"(3), of pin]
    by (auto simp: search_next_cases)
  then show ?case by (cases "onewire_search_next onewire_bus NONE s pin w") (simp add: i)
next
  case (Suc k)
  then have i: "i < length D" and k: "k = length D - Suc i" by simp_all
  then have ne: "D \<noteq> []" by auto
  from Suc.prems(4) [OF i] obtain L where ldf: "\<not> last_device_found s"
    and len: "length (rom_no s) = 8" and L: "L \<le> 64" "last_discrepancy s = of_nat L"
    and first: "fst (bwalk 64 L (map (rom_bit (rom_no s)) [0..<64]) A) = sort A ! i"
    by blast
  let ?cz = "bwalk 64 L (map (rom_bit (rom_no s)) [0..<64]) A"
  let ?S = "sort_key (bits_from 0) D"
  have uni: "uniform 64 A" using uniform_bits_from [of 0 D] by (simp add: A_def)
  have dA: "distinct A"
    unfolding A_def using dist by (simp add: distinct_map inj_on_def) (metis bits_from_inj)
  have lenA: "length A = length D" by (simp add: A_def)
  have sortA: "sort A = map (bits_from 0) ?S" by (simp add: A_def map_sort_key)
  from bus_search_next [OF Suc.prems(3) ne ldf len L(2,1), of NONE pin, folded A_def]
  obtain r s1 w' where r: "r \<in> set D" and rb: "bits_from 0 r = fst ?cz"
    and bits: "\<forall>q<64. rom_bit (rom_no s1) q = bit r q" and len1: "length (rom_no s1) = 8"
    and ok': "bus_ok D Idle w'"
    and call: "onewire_search_next onewire_bus NONE s pin w =
          (if (ucast r :: uint8_t) = 0
           then (NONE, s1\<lparr>last_discrepancy := 0, last_device_found := False\<rparr>, w')
           else (r, s1\<lparr>last_discrepancy := of_nat (snd ?cz), last_device_found := (snd ?cz = 0)\<rparr>, w'))"
    by blast
  let ?s2 = "s1\<lparr>last_discrepancy := of_nat (snd ?cz), last_device_found := (snd ?cz = 0)\<rparr>"
  have call': "onewire_search_next onewire_bus NONE s pin w = (r, ?s2, w')"
    using call fam r by simp
  have "bits_from 0 r = bits_from 0 (?S ! i)"
    using rb first sortA i by simp
  then have ri: "r = ?S ! i" by (rule bits_from_inj)
  have rom: "map (rom_bit (rom_no s1)) [0..<64] = sort A ! i"
  proof -
    have "map (rom_bit (rom_no s1)) [0..<64] = map (bit r) [0..<64]"
      using bits by simp
    moreover have "map (bit r) [0..<64] = sort A ! i"
      using rb first by (simp add: bits_from_def)
    ultimately show ?thesis by (simp only:)
  qed
  have snd: "snd ?cz = ld_of A (sort A ! i)"
    using bwalk_ld [of 64 L "map (rom_bit (rom_no s)) [0..<64]" A] first by simp
  have le: "snd ?cz \<le> 64" by (rule bwalk_snd_le)
  have "search_seq onewire_bus NONE pin (Suc (length D - Suc i)) ?s2 w'
       = drop (Suc i) ?S @ [NONE]"
  proof (rule Suc.IH [OF k _ ok'])
    show "Suc i \<le> length D" using i by simp
  next
    assume lt: "Suc i < length D"
    then have lt': "Suc i < length A" by (simp add: lenA)
    have "0 < snd ?cz" using bwalk_next(1) [OF uni dA lt'] snd by simp
    moreover have "fst (bwalk 64 (snd ?cz) (map (rom_bit (rom_no ?s2)) [0..<64]) A) = sort A ! Suc i"
      using bwalk_next(2) [OF uni dA lt'] by (simp add: rom snd)
    ultimately show "\<not> last_device_found ?s2 \<and> length (rom_no ?s2) = 8 \<and>
        (\<exists>L\<le>64. last_discrepancy ?s2 = of_nat L \<and>
           fst (bwalk 64 L (map (rom_bit (rom_no ?s2)) [0..<64]) A) = sort A ! Suc i)"
      using le len1 by auto
  next
    assume "Suc i = length D"
    then have "Suc i = length A" by (simp add: lenA)
    from ld_of_last [OF uni this] show "last_device_found ?s2 \<or> D = []"
      using snd by simp
  qed
  moreover have "drop i ?S = r # drop (Suc i) ?S"
    using i ri by (simp add: Cons_nth_drop_Suc)
  moreover have "length D - i = Suc (length D - Suc i)" using i by simp
  ultimately show ?case by (simp add: call')
qed

lemma bus_init_ok: "bus_ok devs Idle ([], bus_init devs)"
  by (simp add: bus_ok_def settled_def bus_init_def)

text \<open>
  C1 (amended): on a bus with the devices \<open>devs\<close>, whose addresses are distinct and all
  have a family code (lowest byte) other than 0, and which lose and gain no device,
  \<open>length devs + 1\<close> successive calls of \<open>onewire_search_next\<close> from a Search State
  fresh from \<open>onewire_search_start\<close> return the address of every device exactly once,
  in increasing order of their bits read from bit 0 up (of two addresses, the one with 0 at
  the lowest bit in which they differ comes first), and then \<open>ONEWIRE_NONE\<close>. The
  list returned before \<open>ONEWIRE_NONE\<close> has the same elements as \<open>devs\<close> and no
  repetition.
\<close>

theorem search_enumerates_devices:
  assumes "distinct devs" and "\<forall>d\<in>set devs. (ucast d :: uint8_t) \<noteq> 0"
  shows "search_seq onewire_bus NONE pin (Suc (length devs)) onewire_search_start ([], bus_init devs)
       = sort_key (bits_from 0) devs @ [NONE]
     \<and> set (sort_key (bits_from 0) devs) = set devs
     \<and> distinct (sort_key (bits_from 0) devs)"
proof -
  let ?A = "map (bits_from 0) devs"
  have "search_seq onewire_bus NONE pin (Suc (length devs - 0)) onewire_search_start ([], bus_init devs)
       = drop 0 (sort_key (bits_from 0) devs) @ [NONE]"
  proof (rule bus_seq [OF assms refl _ bus_init_ok])
    show "0 \<le> length devs" by simp
  next
    assume "0 < length devs"
    then have ne: "?A \<noteq> []" by simp
    have uni: "uniform 64 ?A" using uniform_bits_from [of 0 devs] by simp
    have dA: "distinct ?A"
      using assms(1) by (simp add: distinct_map inj_on_def) (metis bits_from_inj)
    have "fst (bwalk 64 0 (map (rom_bit (rom_no onewire_search_start)) [0..<64]) ?A) = sort ?A ! 0"
      by (rule bwalk_first [OF uni dA ne])
    then show "\<not> last_device_found onewire_search_start \<and> length (rom_no onewire_search_start) = 8 \<and>
        (\<exists>L\<le>64. last_discrepancy onewire_search_start = of_nat L \<and>
           fst (bwalk 64 L (map (rom_bit (rom_no onewire_search_start)) [0..<64]) ?A) = sort ?A ! 0)"
      by (intro conjI exI [of _ 0]) (simp_all add: onewire_search_start_def)
  next
    assume "0 = length devs"
    then show "last_device_found onewire_search_start \<or> devs = []" by simp
  qed
  then show ?thesis using assms(1) by simp
qed

lemma bits_from_less:
  assumes "k < 64" "take_bit k a = take_bit k b" "\<not> bit a k" "bit b k"
  shows "bits_from 0 a < bits_from 0 b"
proof -
  have k: "[0..<64] = [0..<k] @ k # [Suc k..<64]"
    using assms(1) upt_add_eq_append [of 0 k "64 - k"] by (simp add: upt_conv_Cons)
  have "bit a q = bit b q" if "q < k" for q
  proof -
    have "bit (take_bit k a) q = bit (take_bit k b) q" by (simp only: assms(2))
    then show ?thesis using that by (simp add: bit_take_bit_iff)
  qed
  then have e: "map (bit a) [0..<k] = map (bit b) [0..<k]" by simp
  have "map (bit b) [0..<k] @ False # map (bit a) [Suc k..<64]
      < map (bit b) [0..<k] @ True # map (bit b) [Suc k..<64]"
    by (simp add: list_less_def lexord_append_leftI)
  then show ?thesis using assms(3,4)
    by (simp only: bits_from_def k map_append list.map e simp_thms)
qed

theorem search_enumerates_devices_witness:
  "search_seq onewire_bus example_none 0 4 onewire_search_start
      ([], bus_init [0x3100000000000128, 0x5C00000000000128, 0xA200000000000210])
    = [0xA200000000000210, 0x5C00000000000128, 0x3100000000000128, example_none]"
proof -
  let ?devs = "[0x3100000000000128, 0x5C00000000000128, 0xA200000000000210] :: onewire_addr_t list"
  have a: "bits_from 0 0xA200000000000210 < bits_from 0 0x5C00000000000128"
    by (rule bits_from_less [of 3]) simp_all
  have b: "bits_from 0 0x5C00000000000128 < bits_from 0 0x3100000000000128"
    by (rule bits_from_less [of 56]) simp_all
  have c: "bits_from 0 0xA200000000000210 < bits_from 0 0x3100000000000128"
    using a b by (rule less_trans)
  have s: "sort_key (bits_from 0) ?devs
      = [0xA200000000000210, 0x5C00000000000128, 0x3100000000000128]"
    using a b c by (simp add: less_imp_le not_le [symmetric] del: not_le)
  have h1: "distinct ?devs" by simp
  have h2: "\<forall>d\<in>set ?devs. (ucast d :: uint8_t) \<noteq> 0" by simp
  have n: "Suc (length ?devs) = 4" by simp
  show ?thesis
    using search_enumerates_devices [OF h1 h2, of example_none 0] unfolding s n by simp
qed

lemma zero_family_call:
  fixes s :: onewire_search_t and w :: "bus_state world" and a :: onewire_addr_t
  assumes "bus_ok [a] ph w" "(ucast a :: uint8_t) = 0" "\<not> last_device_found s"
    "length (rom_no s) = 8" "last_discrepancy s = 0"
  shows "\<exists>s' w'. onewire_search_next onewire_bus NONE s pin w = (NONE, s', w')
      \<and> bus_ok [a] Idle w' \<and> \<not> last_device_found s' \<and> length (rom_no s') = 8
      \<and> last_discrepancy s' = 0"
proof -
  have ld: "last_discrepancy s = of_nat 0" using assms(5) by simp
  from bus_search_next [OF assms(1) _ assms(3,4) ld, of NONE pin]
  obtain r s1 w' where r: "r \<in> set [a]" and len1: "length (rom_no s1) = 8"
    and ok': "bus_ok [a] Idle w'"
    and call: "onewire_search_next onewire_bus NONE s pin w =
          (if (ucast r :: uint8_t) = 0
           then (NONE, s1\<lparr>last_discrepancy := 0, last_device_found := False\<rparr>, w')
           else (r, s1\<lparr>last_discrepancy :=
                   of_nat (snd (bwalk 64 0 (map (rom_bit (rom_no s)) [0..<64]) (map (bits_from 0) [a]))),
                 last_device_found :=
                   (snd (bwalk 64 0 (map (rom_bit (rom_no s)) [0..<64]) (map (bits_from 0) [a])) = 0)\<rparr>, w'))"
    by auto
  have "onewire_search_next onewire_bus NONE s pin w
      = (NONE, s1\<lparr>last_discrepancy := 0, last_device_found := False\<rparr>, w')"
    using call r assms(2) by simp
  then show ?thesis using ok' len1 by simp
qed

lemma zero_family_seq:
  fixes s :: onewire_search_t and w :: "bus_state world" and a :: onewire_addr_t
  assumes "bus_ok [a] ph w" "(ucast a :: uint8_t) = 0" "\<not> last_device_found s"
    "length (rom_no s) = 8" "last_discrepancy s = 0"
  shows "search_seq onewire_bus NONE pin n s w = replicate n NONE"
  using assms
proof (induction n arbitrary: s w ph)
  case 0
  show ?case by simp
next
  case (Suc n)
  from zero_family_call [OF Suc.prems, of NONE pin]
  obtain s' w' where c: "onewire_search_next onewire_bus NONE s pin w = (NONE, s', w')"
    and i: "bus_ok [a] Idle w'" "\<not> last_device_found s'" "length (rom_no s') = 8"
      "last_discrepancy s' = 0"
    by blast
  show ?case by (simp add: c Suc.IH [OF i(1) Suc.prems(2) i(2,3,4)])
qed

text \<open>
  C1 as stated fails for an address with family code 0: the walk finds the device, and the
  test \<open>!search->rom_no[0]\<close> turns the result into \<open>ONEWIRE_NONE\<close> and resets the
  state, in every call. On the bus with the single device \<open>0x100\<close>, any number of calls
  return \<open>ONEWIRE_NONE\<close> only.
\<close>

theorem search_misses_zero_family_device:
  "\<forall>n. search_seq onewire_bus example_none 0 n onewire_search_start ([], bus_init [0x100])
        = replicate n example_none"
proof
  fix n
  show "search_seq onewire_bus example_none 0 n onewire_search_start ([], bus_init [0x100])
        = replicate n example_none"
    by (rule zero_family_seq [OF bus_init_ok]) (simp_all add: onewire_search_start_def)
qed


end
